theory Spec2Isabelle
  imports Main
begin

section \<open>Scope\<close>

text \<open>
  The shell environment loader of the desktop application: \<open>loadShellEnv\<close> spawns the
  user's login shell and merges the environment it prints into \<open>process.env\<close>;
  \<open>loadDotEnv\<close> merges the lines of a \<open>.env\<close> file. Both are modelled as functions
  from the outside world and the environment table to an exception or the new table.

  The calls to the logger are left out: they only report, leave the environment table
  as it is, and are taken not to throw; the counters of the two loops feed nothing but
  log messages and are left out with them.
\<close>

section \<open>JavaScript string and array primitives used by the loaders\<close>

text \<open>
  Strings are lists of 8-bit characters; a string of the program with a code unit above
  255 has no counterpart here. The primitives below follow the ECMAScript definitions of
  the methods the source calls: \<open>trim\<close>, \<open>startsWith\<close>, \<open>endsWith\<close>, \<open>indexOf\<close>,
  \<open>substring\<close>, \<open>slice\<close>, \<open>split\<close> and \<open>join\<close>. White space is the ECMAScript
  white space and line terminator set restricted to the character codes below 256: tab,
  line feed, vertical tab, form feed, carriage return, space and no-break space.
\<close>

definition is_ws :: "char \<Rightarrow> bool" where
  "is_ws c = (c \<in> set [CHR 0x09, CHR 0x0A, CHR 0x0B, CHR 0x0C, CHR 0x0D, CHR 0x20, CHR 0xA0])"

definition trim :: "string \<Rightarrow> string" where
  "trim s = rev (dropWhile is_ws (rev (dropWhile is_ws s)))"

definition startsWith :: "string \<Rightarrow> string \<Rightarrow> bool" where
  "startsWith s p = (take (length p) s = p)"

definition endsWith :: "string \<Rightarrow> string \<Rightarrow> bool" where
  "endsWith s p = (length p \<le> length s \<and> drop (length s - length p) s = p)"

text \<open>\<open>indexOf\<close> gives the index of the first occurrence, or \<open>-1\<close>. It serves both
  \<open>String.prototype.indexOf\<close> with a one-character needle and \<open>Array.prototype.indexOf\<close>.\<close>

fun indexOf :: "'a list \<Rightarrow> 'a \<Rightarrow> int" where
  "indexOf [] c = - 1"
| "indexOf (x # xs) c =
     (if x = c then 0 else (let i = indexOf xs c in if i < 0 then - 1 else i + 1))"

definition substring :: "string \<Rightarrow> int \<Rightarrow> int \<Rightarrow> string" where
  "substring s start fin =
     (let n = int (length s);
          a = max 0 (min start n);
          b = max 0 (min fin n);
          lo = min a b;
          hi = max a b
      in take (nat (hi - lo)) (drop (nat lo) s))"

definition substring_from :: "string \<Rightarrow> int \<Rightarrow> string" where
  "substring_from s start = drop (nat (max 0 start)) s"

definition slice :: "string \<Rightarrow> int \<Rightarrow> int \<Rightarrow> string" where
  "slice s start fin =
     (let n = int (length s);
          a = (if start < 0 then max 0 (n + start) else min start n);
          b = (if fin < 0 then max 0 (n + fin) else min fin n)
      in take (nat (b - a)) (drop (nat a) s))"

text \<open>\<open>split_str sep s\<close> is \<open>s.split(sep)\<close>: the pieces between the leftmost,
  non-overlapping occurrences of the separator, of which there is always at least one;
  an empty separator splits into single characters.\<close>

fun split_str :: "string \<Rightarrow> string \<Rightarrow> string list" where
  "split_str [] s = map (\<lambda>c. [c]) s"
| "split_str (d # ds) [] = [[]]"
| "split_str (d # ds) (c # s) =
     (if startsWith (c # s) (d # ds) then [] # split_str (d # ds) (drop (length ds) s)
      else (let r = split_str (d # ds) s in (c # hd r) # tl r))"

fun join_str :: "string \<Rightarrow> string list \<Rightarrow> string" where
  "join_str sep [] = []"
| "join_str sep [x] = x"
| "join_str sep (x # y # ys) = x @ sep @ join_str sep (y # ys)"

text \<open>\<open>arr.filter((p, i, arr) => arr.indexOf(p) === i)\<close>: an element stays when its
  index is the index of its first occurrence.\<close>

definition dedupe :: "'a list \<Rightarrow> 'a list" where
  "dedupe arr = map snd (filter (\<lambda>(i, p). indexOf arr p = int i) (enumerate 0 arr))"

section \<open>The process environment and the outside world\<close>

text \<open>\<open>process.env\<close> is the environment table of the process, a table from names to
  strings kept by the operating system as C strings. The table a process starts with has
  no empty name and no NUL in a name or a value. Names are compared exactly, as on macOS
  and the other POSIX systems.\<close>

type_synonym env = "string \<rightharpoonup> string"

text \<open>A string as the C environment takes it: up to its first NUL.\<close>

definition cstr :: "string \<Rightarrow> string" where
  "cstr s = takeWhile (\<lambda>c. c \<noteq> CHR 0x00) s"

text \<open>\<open>process.env[key] = value\<close>: name and value are handed over as C strings, and
  \<open>setenv\<close> refuses an empty name and a name with \<open>=\<close> in it; the refusal is not
  reported, the table stays as it is.\<close>

definition env_set :: "env \<Rightarrow> string \<Rightarrow> string \<Rightarrow> env" where
  "env_set e key v =
     (let name = cstr key
      in if name = [] \<or> CHR ''='' \<in> set name then e else e(name \<mapsto> cstr v))"

text \<open>\<open>process.env[key]\<close> for a computed key: the name is looked up as a C string; when
  it is not set, the read falls through to the members every object inherits from
  \<open>Object.prototype\<close>, which are functions or objects, and gives \<open>undefined\<close> for every
  other key.\<close>

definition object_prototype_names :: "string list" where
  "object_prototype_names =
     [''constructor'', ''__defineGetter__'', ''__defineSetter__'', ''hasOwnProperty'',
      ''__lookupGetter__'', ''__lookupSetter__'', ''isPrototypeOf'', ''propertyIsEnumerable'',
      ''toString'', ''valueOf'', ''__proto__'', ''toLocaleString'']"

datatype js_value = Undefined | Str string | Inherited

definition env_get :: "env \<Rightarrow> string \<Rightarrow> js_value" where
  "env_get e key =
     (case e (cstr key) of
        Some v \<Rightarrow> Str v
      | None \<Rightarrow> if key \<in> set object_prototype_names then Inherited else Undefined)"

fun js_truthy :: "js_value \<Rightarrow> bool" where
  "js_truthy Undefined = False"
| "js_truthy (Str s) = (s \<noteq> [])"
| "js_truthy Inherited = True"

text \<open>The names the loaders read with a fixed key (\<open>VITE_DEV_SERVER_URL\<close>, \<open>SHELL\<close>,
  \<open>HOME\<close>, \<open>USER\<close>, \<open>TMPDIR\<close>, \<open>PATH\<close>) have no NUL and are no inherited member, so
  these reads are plain lookups.\<close>

text \<open>A value read from \<open>process.env\<close> is truthy when it is set and not the empty string.\<close>

definition truthy :: "string option \<Rightarrow> bool" where
  "truthy v = (case v of None \<Rightarrow> False | Some s \<Rightarrow> s \<noteq> [])"

text \<open>\<open>v || d\<close> for a string-or-undefined \<open>v\<close>.\<close>

definition or_default :: "string option \<Rightarrow> string \<Rightarrow> string" where
  "or_default v d = (if truthy v then the v else d)"

text \<open>A value interpolated into a template literal.\<close>

definition interpolate :: "string option \<Rightarrow> string" where
  "interpolate v = (case v of None \<Rightarrow> ''undefined'' | Some s \<Rightarrow> s)"

datatype error = SpawnFailure | NonZeroExit | Timeout | CwdFailure | FileReadFailure

text \<open>
  Everything the loaders read from outside the environment table: the platform name,
  the result of running a shell command with a child environment (the captured stdout, or
  the exception \<open>execSync\<close> throws on a spawn error, a non-zero exit or the timeout), the
  working directory, \<open>path.join\<close>, and the file system.
\<close>

record world =
  platform :: string
  execSync :: "string \<Rightarrow> (string \<times> string option) list \<Rightarrow> error + string"
  cwd :: "error + string"
  path_join :: "string \<Rightarrow> string \<Rightarrow> string"
  existsSync :: "string \<Rightarrow> bool"
  readFileSync :: "string \<Rightarrow> error + string"

text \<open>\<open>try { body } catch (error) { handler }\<close> with the body's outcome as a value.\<close>

definition try_catch :: "error + 'a \<Rightarrow> (error \<Rightarrow> error + 'a) \<Rightarrow> error + 'a" where
  "try_catch body handler = (case body of Inl e \<Rightarrow> handler e | Inr v \<Rightarrow> Inr v)"

section \<open>loadShellEnv\<close>

text \<open>Lines 17 to 19: keys that are not imported from the shell.\<close>

definition shouldSkipEnvVar :: "string \<Rightarrow> bool" where
  "shouldSkipEnvVar key = startsWith key ''VITE_''"

text \<open>Lines 48 to 63: the marker token, the command line and the child's environment;
  a variable that is not set is passed as \<open>undefined\<close>.\<close>

definition marker :: string where
  "marker = ''__ENV_START__''"

definition shell_command :: "string \<Rightarrow> string" where
  "shell_command shell = shell @ '' -l -i -c '' @ [CHR 0x27] @ ''echo __ENV_START__ && env'' @ [CHR 0x27]"

definition child_env :: "env \<Rightarrow> string \<Rightarrow> (string \<times> string option) list" where
  "child_env e shell =
     [(''HOME'', e ''HOME''),
      (''USER'', e ''USER''),
      (''SHELL'', Some shell),
      (''TERM'', Some ''xterm-256color''),
      (''TMPDIR'', e ''TMPDIR''),
      (''APPLE_SUPPRESS_DEVELOPER_TOOL_POPUP'', Some ''1''),
      (''GIT_TERMINAL_PROMPT'', Some ''0'')]"

text \<open>Line 66: \<open>output.split('__ENV_START__')[1] || ''\<close>, the second piece of the
  split, or the empty string when there is none.\<close>

definition envSection :: "string \<Rightarrow> string" where
  "envSection output = (case split_str marker output of _ # x # _ \<Rightarrow> x | _ \<Rightarrow> [])"

text \<open>Lines 68 to 77: the body of the \<open>for\<close> loop over the lines of the trimmed
  environment section, and the loop.\<close>

definition shell_line :: "env \<Rightarrow> string \<Rightarrow> env" where
  "shell_line e line =
     (let eq = indexOf line CHR ''=''
      in if eq > 0 then
           (let key = substring line 0 eq
            in if shouldSkipEnvVar key then e
               else env_set e key (substring_from line (eq + 1)))
         else e)"

definition shell_merge :: "env \<Rightarrow> string \<Rightarrow> env" where
  "shell_merge e output = foldl shell_line e (split_str [CHR 0x0A] (trim (envSection output)))"

text \<open>Lines 92 to 107, the \<open>catch\<close> block: the fallback directories, the current path
  and the new \<open>PATH\<close>, which is put together from values of the table.\<close>

definition fallbackPaths :: "env \<Rightarrow> string list" where
  "fallbackPaths e =
     [''/opt/homebrew/bin'',
      ''/opt/homebrew/sbin'',
      ''/usr/local/bin'',
      ''/usr/local/sbin'',
      interpolate (e ''HOME'') @ ''/.local/bin'',
      interpolate (e ''HOME'') @ ''/.bun/bin'',
      interpolate (e ''HOME'') @ ''/.cargo/bin'']"

definition currentPath :: "env \<Rightarrow> string" where
  "currentPath e = or_default (e ''PATH'') ''/usr/bin:/bin:/usr/sbin:/sbin''"

definition fallback :: "env \<Rightarrow> env" where
  "fallback e =
     e(''PATH'' \<mapsto> join_str '':'' (dedupe (fallbackPaths e @ split_str '':'' (currentPath e))))"

text \<open>Lines 28 to 109. \<open>execSync\<close> is the only call of the \<open>try\<close> block that can
  throw.\<close>

definition loadShellEnv :: "world \<Rightarrow> env \<Rightarrow> error + env" where
  "loadShellEnv w e =
     (if platform w \<noteq> ''darwin'' then Inr e
      else if truthy (e ''VITE_DEV_SERVER_URL'') then Inr e
      else (let shell = or_default (e ''SHELL'') ''/bin/zsh''
            in try_catch
                 (case execSync w (shell_command shell) (child_env e shell) of
                    Inl err \<Rightarrow> Inl err
                  | Inr output \<Rightarrow> Inr (shell_merge e output))
                 (\<lambda>err. Inr (fallback e))))"

section \<open>loadDotEnv\<close>

text \<open>Lines 139 to 151: what one line of the file parses to, if anything: its key and
  its value with surrounding quotes removed.\<close>

definition strip_quotes :: "string \<Rightarrow> string" where
  "strip_quotes v =
     (if (startsWith v [CHR 0x22] \<and> endsWith v [CHR 0x22]) \<or>
         (startsWith v [CHR 0x27] \<and> endsWith v [CHR 0x27])
      then slice v 1 (- 1) else v)"

definition dotenv_entry :: "string \<Rightarrow> (string \<times> string) option" where
  "dotenv_entry line =
     (let trimmed = trim line
      in if trimmed = [] \<or> startsWith trimmed ''#'' then None
         else (let eq = indexOf trimmed CHR ''=''
               in if eq > 0 then
                    Some (trim (substring trimmed 0 eq),
                          strip_quotes (trim (substring_from trimmed (eq + 1))))
                  else None))"

text \<open>Lines 137 to 158: the body of the \<open>for\<close> loop over the lines of the file, with
  the presence check of line 154, and the loop.\<close>

definition dotenv_line :: "env \<Rightarrow> string \<Rightarrow> env" where
  "dotenv_line e line =
     (case dotenv_entry line of
        None \<Rightarrow> e
      | Some (key, v) \<Rightarrow> if \<not> js_truthy (env_get e key) then env_set e key v else e)"

definition dotenv_merge :: "env \<Rightarrow> string \<Rightarrow> env" where
  "dotenv_merge e envContent = foldl dotenv_line e (split_str [CHR 0x0A] envContent)"

text \<open>Lines 115 to 165. \<open>process.cwd()\<close> and \<open>readFileSync\<close> can throw;
  \<open>existsSync\<close> answers \<open>false\<close> instead.\<close>

definition loadDotEnv :: "world \<Rightarrow> env \<Rightarrow> error + env" where
  "loadDotEnv w e =
     (if \<not> truthy (e ''VITE_DEV_SERVER_URL'') then Inr e
      else try_catch
             (case cwd w of
                Inl err \<Rightarrow> Inl err
              | Inr dir \<Rightarrow>
                  (let envPath = path_join w dir ''.env''
                   in if \<not> existsSync w envPath then Inr e
                      else (case readFileSync w envPath of
                              Inl err \<Rightarrow> Inl err
                            | Inr envContent \<Rightarrow> Inr (dotenv_merge e envContent))))
             (\<lambda>err. Inr e))"

section \<open>Notions the properties are stated with\<close>

text \<open>\<open>s.includes(p)\<close>: the string \<open>p\<close> occurs somewhere in \<open>s\<close>.\<close>

fun str_includes :: "string \<Rightarrow> string \<Rightarrow> bool" where
  "str_includes [] p = (p = [])"
| "str_includes (c # s) p = (startsWith (c # s) p \<or> str_includes s p)"

text \<open>\<open>first_occurrences seen xs\<close>: the entries of \<open>xs\<close> in their order, leaving out
  those already in \<open>seen\<close> and every repeat of an earlier entry. With \<open>seen = []\<close> this is
  \<open>xs\<close> with duplicates removed, first occurrences kept.\<close>

fun first_occurrences :: "'a list \<Rightarrow> 'a list \<Rightarrow> 'a list" where
  "first_occurrences seen [] = []"
| "first_occurrences seen (x # xs) =
     (if x \<in> set seen then first_occurrences seen xs
      else x # first_occurrences (x # seen) xs)"

text \<open>The key and value a line of the shell's output contributes, when it contributes
  one: the line has an \<open>=\<close> past position 0 and its key passes the skip filter.\<close>

definition shell_entry :: "string \<Rightarrow> (string \<times> string) option" where
  "shell_entry line =
     (let eq = indexOf line CHR ''=''
      in if eq > 0 \<and> \<not> shouldSkipEnvVar (substring line 0 eq)
         then Some (substring line 0 eq, substring_from line (eq + 1)) else None)"

definition shell_entries :: "string \<Rightarrow> (string \<times> string) list" where
  "shell_entries output =
     List.map_filter shell_entry (split_str [CHR 0x0A] (trim (envSection output)))"

text \<open>What the environment table keeps of a key and a value assigned to it: both up to
  their first NUL, and nothing when the name is then empty.\<close>

definition stored :: "string \<times> string \<Rightarrow> (string \<times> string) option" where
  "stored kv = (if cstr (fst kv) = [] then None else Some (cstr (fst kv), cstr (snd kv)))"

definition shell_stored :: "string \<Rightarrow> (string \<times> string) list" where
  "shell_stored output = List.map_filter stored (shell_entries output)"

text \<open>The values the lines of a \<open>.env\<close> file give for one name of the table, as the table
  would keep them, in file order.\<close>

definition dotenv_values :: "string \<Rightarrow> string list \<Rightarrow> string list" where
  "dotenv_values k ls =
     map snd (filter (\<lambda>kv. fst kv = k) (List.map_filter stored (List.map_filter dotenv_entry ls)))"

text \<open>What a name holds after the \<open>.env\<close> loop when every line for it passes the
  presence check as long as the name is absent or empty, from what it held before and the
  values the file gives for it: a truthy old value stays; otherwise the first non-empty
  value of the file, or the empty string when the file has only empty values, or the old
  value when the file has none.\<close>

definition first_nonempty :: "string option \<Rightarrow> string list \<Rightarrow> string option" where
  "first_nonempty old vs =
     (if truthy old then old
      else (case find (\<lambda>v. v \<noteq> []) vs of
              Some v \<Rightarrow> Some v
            | None \<Rightarrow> if vs = [] then old else Some []))"

subsection \<open>Sample inputs\<close>

abbreviation nl :: string where
  "nl \<equiv> [CHR 0x0A]"

abbreviation dquote :: char where
  "dquote \<equiv> CHR 0x22"

abbreviation squote :: char where
  "squote \<equiv> CHR 0x27"

text \<open>A macOS machine whose shell invocation ends in \<open>shell_result\<close>, started in
  \<open>/proj\<close>, where \<open>/proj/.env\<close> exists and reading it gives \<open>file\<close>.\<close>

definition sample_world :: "error + string \<Rightarrow> error + string \<Rightarrow> world" where
  "sample_world shell_result file =
     \<lparr>platform = ''darwin'',
      execSync = (\<lambda>cmd cenv. shell_result),
      cwd = Inr ''/proj'',
      path_join = (\<lambda>a b. a @ ''/'' @ b),
      existsSync = (\<lambda>p. p = ''/proj/.env''),
      readFileSync = (\<lambda>p. if p = ''/proj/.env'' then file else Inl FileReadFailure)\<rparr>"

text \<open>A development session: the dev-server marker variable is set.\<close>

definition dev_env :: env where
  "dev_env = [''VITE_DEV_SERVER_URL'' \<mapsto> ''http://localhost:5173'']"

text \<open>Shell output with a banner before the marker and a \<open>VITE_\<close> variable after it.\<close>

definition shell_demo_output :: string where
  "shell_demo_output =
     ''Welcome banner'' @ nl @ ''__ENV_START__'' @ nl @ ''FOO=bar'' @ nl @ ''VITE_X=1'' @ nl @
     ''PATH=/a:/b'' @ nl"

text \<open>The environment of an application started from the Finder, with one
  \<open>VITE_\<close> variable already set.\<close>

definition launch_env :: env where
  "launch_env = [''PATH'' \<mapsto> ''/usr/bin:/bin'', ''VITE_OLD'' \<mapsto> ''keep'']"

text \<open>Shell output in which the marker occurs a second time, inside a value.\<close>

definition two_marker_output :: string where
  "two_marker_output =
     ''__ENV_START__'' @ nl @ ''A=1'' @ nl @ ''NOTE=__ENV_START__'' @ nl @ ''B=2'' @ nl"

text \<open>Environments with a home directory: one with repeated \<open>PATH\<close> entries, one with
  an empty \<open>PATH\<close>.\<close>

definition home_env :: env where
  "home_env = [''HOME'' \<mapsto> ''/Users/me'', ''PATH'' \<mapsto> ''/usr/local/bin:/usr/bin:/bin:/usr/bin'']"

definition empty_path_env :: env where
  "empty_path_env = [''HOME'' \<mapsto> ''/Users/me'', ''PATH'' \<mapsto> [] ]"

text \<open>The minimal environment of the merge-precedence example, and the shell output
  reporting another \<open>PATH\<close>.\<close>

definition seed_env :: env where
  "seed_env = [''PATH'' \<mapsto> ''/bin'']"

definition path_output :: string where
  "path_output = ''__ENV_START__'' @ nl @ ''PATH=/usr/local/bin:/bin'' @ nl"

text \<open>A \<open>.env\<close> file with four lines for the key \<open>K\<close>: the first has only blanks
  after the \<open>=\<close>, the second an empty pair of quotes, the third blanks around key and
  value.\<close>

definition repeated_key_file :: string where
  "repeated_key_file =
     ''K=   '' @ nl @ ''K='' @ [dquote, dquote] @ nl @ ''  K = first  '' @ nl @ ''K=second''"

text \<open>Shell output with a NUL inside a value.\<close>

definition nul_output :: string where
  "nul_output = ''__ENV_START__'' @ nl @ ''A=x'' @ [CHR 0x00] @ ''y'' @ nl"

text \<open>Two \<open>.env\<close> files with two lines for one key: the key of the first is the name of
  a member that objects inherit, the first value of the second begins with a NUL.\<close>

definition inherited_key_file :: string where
  "inherited_key_file = ''constructor='' @ nl @ ''constructor=2''"

definition nul_value_file :: string where
  "nul_value_file = ''B='' @ [CHR 0x00] @ nl @ ''B=w''"

section \<open>Auxiliary facts\<close>

subsection \<open>Strings\<close>

lemma split_str_nonempty: "split_str (d # ds) s \<noteq> []"
  by (induction s rule: length_induct) (case_tac xs; simp add: Let_def)

lemma split_str_no_sep: "\<not> str_includes s (d # ds) \<Longrightarrow> split_str (d # ds) s = [s]"
  by (induction s) (simp_all add: Let_def)

lemma startsWith_within:
  "length p \<le> length a \<Longrightarrow> startsWith (a @ b) p = startsWith a p"
  by (simp add: startsWith_def)

lemma split_str_first:
  "\<not> str_includes (pre @ butlast (d # ds)) (d # ds) \<Longrightarrow>
   split_str (d # ds) (pre @ (d # ds) @ rest) = pre # split_str (d # ds) rest"
proof (induction pre)
  case Nil
  then show ?case by (simp add: startsWith_def)
next
  case (Cons c pre)
  obtain bl la where m: "d # ds = bl @ [la]"
    by (metis append_butlast_last_id list.distinct(1))
  have bl: "butlast (d # ds) = bl"
    unfolding m by simp
  have len: "length (d # ds) \<le> length (c # pre @ bl)"
    using arg_cong[OF m, of length] by simp
  have prems: "\<not> startsWith (c # pre @ bl) (d # ds)" "\<not> str_includes (pre @ bl) (d # ds)"
    using Cons.prems unfolding bl by simp_all
  have eq: "c # pre @ (d # ds) @ rest = (c # pre @ bl) @ (la # rest)"
    unfolding m by simp
  have "\<not> startsWith ((c # pre @ bl) @ (la # rest)) (d # ds)"
    using prems(1) startsWith_within[OF len, of "la # rest"] by blast
  then have no_match: "\<not> startsWith (c # pre @ (d # ds) @ rest) (d # ds)"
    unfolding eq .
  have "split_str (d # ds) (pre @ (d # ds) @ rest) = pre # split_str (d # ds) rest"
    using prems(2) Cons.IH unfolding bl by simp
  then show ?case
    using no_match by simp
qed

lemma envSection_after_first_marker:
  "\<not> str_includes (banner @ butlast marker) marker \<Longrightarrow>
   envSection (banner @ marker @ rest) = hd (split_str marker rest)"
proof -
  assume "\<not> str_includes (banner @ butlast marker) marker"
  then have "split_str marker (banner @ marker @ rest) = banner # split_str marker rest"
    unfolding marker_def by (rule split_str_first)
  moreover have "split_str marker rest \<noteq> []"
    unfolding marker_def by (rule split_str_nonempty)
  ultimately show ?thesis
    by (cases "split_str marker rest") (simp_all add: envSection_def)
qed

lemma startsWith_single: "startsWith v [q] \<longleftrightarrow> v \<noteq> [] \<and> hd v = q"
  by (cases v) (auto simp: startsWith_def)

lemma endsWith_single: "endsWith v [q] \<longleftrightarrow> v \<noteq> [] \<and> last v = q"
proof (cases v rule: rev_cases)
  case Nil
  then show ?thesis by (simp add: endsWith_def)
next
  case (snoc ys y)
  then show ?thesis by (auto simp: endsWith_def)
qed

lemma slice_1_m1: "slice v 1 (- 1) = butlast (tl v)"
proof (cases v)
  case Nil
  then show ?thesis by (simp add: slice_def)
next
  case (Cons c cs)
  then show ?thesis by (simp add: slice_def butlast_conv_take nat_diff_distrib')
qed

lemma trim_id: "s \<noteq> [] \<Longrightarrow> \<not> is_ws (hd s) \<Longrightarrow> \<not> is_ws (last s) \<Longrightarrow> trim s = s"
proof -
  assume s: "s \<noteq> []" "\<not> is_ws (hd s)" "\<not> is_ws (last s)"
  have "dropWhile is_ws s = s"
    using s by (cases s) auto
  moreover have "dropWhile is_ws (rev s) = rev s"
    using s by (cases s rule: rev_cases) auto
  ultimately show ?thesis
    by (simp add: trim_def)
qed

lemma quote_not_ws: "\<not> is_ws dquote" "\<not> is_ws squote"
  by (simp_all add: is_ws_def)

lemma set_trim: "set (trim s) \<subseteq> set s"
proof
  fix c
  assume "c \<in> set (trim s)"
  then have "c \<in> set (dropWhile is_ws (rev (dropWhile is_ws s)))"
    by (simp add: trim_def)
  then have "c \<in> set (rev (dropWhile is_ws s))"
    by (rule set_dropWhileD)
  then have "c \<in> set (dropWhile is_ws s)"
    by simp
  then show "c \<in> set s"
    by (rule set_dropWhileD)
qed

lemma substring_prefix: "0 \<le> i \<Longrightarrow> substring s 0 i = take (nat i) s"
  by (simp add: substring_def Let_def min_def max_def)

lemma cstr_id: "CHR 0x00 \<notin> set s \<Longrightarrow> cstr s = s"
  by (auto simp: cstr_def takeWhile_eq_all_conv)

lemma set_cstr: "set (cstr s) \<subseteq> set s"
  unfolding cstr_def by (rule subsetI) (rule set_takeWhileD[THEN conjunct1])

lemma startsWith_append: "startsWith a p \<Longrightarrow> startsWith (a @ b) p"
proof -
  assume a: "startsWith a p"
  then have "length (take (length p) a) = length p"
    by (simp add: startsWith_def)
  then have "length p \<le> length a"
    by simp
  then show ?thesis
    using a by (simp add: startsWith_def)
qed

lemma startsWith_cstr: "startsWith (cstr s) p \<Longrightarrow> startsWith s p"
  using startsWith_append[of "cstr s" p "dropWhile (\<lambda>c. c \<noteq> CHR 0x00) s"]
  by (simp add: cstr_def)

lemma append_eq_suffix: "h @ s = t \<Longrightarrow> drop (length t - length s) t = s"
  by auto

subsection \<open>indexOf and dedupe\<close>

text \<open>The filter of the source keeps exactly the first occurrences.\<close>

lemma indexOf_in: "c \<in> set xs \<Longrightarrow> 0 \<le> indexOf xs c \<and> indexOf xs c < int (length xs)"
  by (induction xs) (auto simp: Let_def)

lemma indexOf_append_in: "c \<in> set xs \<Longrightarrow> indexOf (xs @ ys) c = indexOf xs c"
  by (induction xs) (auto simp: Let_def)

lemma indexOf_append_notin:
  "c \<notin> set xs \<Longrightarrow> indexOf (xs @ c # ys) c = int (length xs)"
  by (induction xs) (auto simp: Let_def)

lemma indexOf_take: "0 \<le> indexOf xs c \<Longrightarrow> c \<notin> set (take (nat (indexOf xs c)) xs)"
proof (induction xs)
  case Nil
  then show ?case by simp
next
  case (Cons x xs)
  show ?case
  proof (cases "x = c")
    case True
    then show ?thesis by simp
  next
    case False
    then have i: "0 \<le> indexOf xs c" "indexOf (x # xs) c = indexOf xs c + 1"
      using Cons.prems by (auto simp: Let_def split: if_splits)
    have "nat (indexOf xs c + 1) = Suc (nat (indexOf xs c))"
      using i(1) by simp
    then show ?thesis
      using False Cons.IH[OF i(1)] i(2) by simp
  qed
qed

lemma first_occurrences_cong: "set a = set b \<Longrightarrow> first_occurrences a xs = first_occurrences b xs"
proof (induction xs arbitrary: a b)
  case Nil
  then show ?case by simp
next
  case (Cons x xs)
  have "set (x # a) = set (x # b)" using Cons.prems by simp
  from Cons.IH[OF this] Cons.IH[OF Cons.prems] show ?case
    by (simp add: Cons.prems)
qed

lemma dedupe_gen:
  "map snd (filter (\<lambda>(i, p). indexOf (pre @ xs) p = int i) (enumerate (length pre) xs))
   = first_occurrences pre xs"
proof (induction xs arbitrary: pre)
  case Nil
  then show ?case by simp
next
  case (Cons x xs)
  have IH: "map snd (filter (\<lambda>(i, p). indexOf (pre @ x # xs) p = int i)
              (enumerate (Suc (length pre)) xs)) = first_occurrences (pre @ [x]) xs"
    using Cons.IH[of "pre @ [x]"] by simp
  show ?case
  proof (cases "x \<in> set pre")
    case True
    then have "indexOf (pre @ x # xs) x \<noteq> int (length pre)"
      using indexOf_in[of x pre] by (simp add: indexOf_append_in)
    moreover have "first_occurrences (pre @ [x]) xs = first_occurrences pre xs"
      using True by (intro first_occurrences_cong) auto
    ultimately show ?thesis using IH True by simp
  next
    case False
    have "first_occurrences (pre @ [x]) xs = first_occurrences (x # pre) xs"
      by (intro first_occurrences_cong) auto
    then show ?thesis using IH False by (simp add: indexOf_append_notin)
  qed
qed

lemma dedupe_first_occurrences: "dedupe arr = first_occurrences [] arr"
  using dedupe_gen[of "[]" arr] by (simp add: dedupe_def)

lemma first_occurrences_filter_gen:
  "first_occurrences (seen @ acc) xs = filter (\<lambda>p. p \<notin> set seen) (first_occurrences acc xs)"
proof (induction xs arbitrary: acc)
  case Nil
  then show ?case by simp
next
  case (Cons x xs)
  have "first_occurrences (x # seen @ acc) xs = first_occurrences (seen @ x # acc) xs"
    by (intro first_occurrences_cong) auto
  moreover have "x \<in> set seen \<Longrightarrow> first_occurrences (seen @ x # acc) xs = first_occurrences (seen @ acc) xs"
    by (intro first_occurrences_cong) auto
  ultimately show ?case using Cons[of "x # acc"] Cons[of acc] by auto
qed

lemma first_occurrences_filter: "first_occurrences seen xs = filter (\<lambda>p. p \<notin> set seen) (first_occurrences [] xs)"
  using first_occurrences_filter_gen[of seen "[]" xs] by simp

lemma first_occurrences_distinct_prefix:
  "distinct fb \<Longrightarrow> set seen \<inter> set fb = {} \<Longrightarrow> first_occurrences seen (fb @ xs) = fb @ first_occurrences (seen @ fb) xs"
proof (induction fb arbitrary: seen)
  case Nil
  then show ?case by simp
next
  case (Cons x fb)
  have "first_occurrences (x # seen) (fb @ xs) = fb @ first_occurrences ((x # seen) @ fb) xs"
    using Cons.prems by (intro Cons.IH) auto
  moreover have "first_occurrences ((x # seen) @ fb) xs = first_occurrences (seen @ x # fb) xs"
    by (intro first_occurrences_cong) auto
  ultimately show ?case using Cons.prems by auto
qed

lemma dedupe_append_distinct:
  "distinct fb \<Longrightarrow> dedupe (fb @ xs) = fb @ filter (\<lambda>p. p \<notin> set fb) (first_occurrences [] xs)"
  using first_occurrences_distinct_prefix[of fb "[]" xs] first_occurrences_filter[of fb xs]
  by (simp add: dedupe_first_occurrences)

lemma first_occurrences_set: "set (first_occurrences seen xs) = set xs - set seen"
  by (induction xs arbitrary: seen) auto

lemma first_occurrences_distinct: "distinct (first_occurrences seen xs)"
  by (induction xs arbitrary: seen) (auto simp: first_occurrences_set)

subsection \<open>The shell loader\<close>

text \<open>The loop over the lines writes the entries one after the other, so the last entry
  of a key wins; the \<open>try\<close> block turns into a case distinction on what \<open>execSync\<close> did.\<close>

lemma shell_entry_key: "shell_entry line = Some (K, V) \<Longrightarrow> CHR ''='' \<notin> set K"
proof -
  assume a: "shell_entry line = Some (K, V)"
  then have eq: "0 < indexOf line CHR ''=''" and K: "K = substring line 0 (indexOf line CHR ''='')"
    by (auto simp: shell_entry_def Let_def split: if_splits)
  have "K = take (nat (indexOf line CHR ''='')) line"
    using eq K by (simp add: substring_prefix)
  then show ?thesis
    using eq indexOf_take[of line "CHR ''=''"] by simp
qed

lemma env_set_stored:
  "CHR ''='' \<notin> set K \<Longrightarrow>
   env_set e K V = (case stored (K, V) of None \<Rightarrow> e | Some (k, v) \<Rightarrow> e(k \<mapsto> v))"
  using set_cstr[of K] by (auto simp: env_set_def stored_def Let_def)

lemma shell_line_entry:
  "shell_line e line =
     (case shell_entry line of
        None \<Rightarrow> e
      | Some kv \<Rightarrow> (case stored kv of None \<Rightarrow> e | Some (k, v) \<Rightarrow> e(k \<mapsto> v)))"
proof (cases "shell_entry line")
  case None
  then show ?thesis
    by (auto simp: shell_line_def shell_entry_def Let_def split: if_splits)
next
  case (Some kv)
  obtain K V where kv: "kv = (K, V)" by (cases kv)
  have "shell_line e line = env_set e K V"
    using Some kv by (auto simp: shell_line_def shell_entry_def Let_def split: if_splits)
  then show ?thesis
    using Some kv env_set_stored[OF shell_entry_key, of line K V e] by simp
qed

lemma shell_entry_not_skipped: "shell_entry line = Some (k, v) \<Longrightarrow> \<not> shouldSkipEnvVar k"
  by (auto simp: shell_entry_def Let_def split: if_splits)

lemma map_filter_snoc:
  "List.map_filter f (xs @ [x]) = List.map_filter f xs @ (case f x of None \<Rightarrow> [] | Some y \<Rightarrow> [y])"
  by (simp add: List.map_filter_def split: option.splits)

lemma foldl_shell_line:
  "foldl shell_line e ls =
     e ++ map_of (rev (List.map_filter stored (List.map_filter shell_entry ls)))"
proof (induction ls rule: rev_induct)
  case Nil
  then show ?case by (simp add: List.map_filter_simps)
next
  case (snoc l ls)
  have step: "foldl shell_line e (ls @ [l]) = shell_line (foldl shell_line e ls) l"
    by simp
  show ?case
  proof (cases "shell_entry l")
    case None
    then show ?thesis
      unfolding step shell_line_entry[of _ l] using snoc
      by (simp add: map_filter_snoc List.map_filter_simps)
  next
    case (Some kv)
    show ?thesis
    proof (cases "stored kv")
      case None
      then show ?thesis
        unfolding step shell_line_entry[of _ l] using snoc Some
        by (simp add: map_filter_snoc List.map_filter_simps)
    next
      case (Some kv')
      obtain k v where kv': "kv' = (k, v)" by (cases kv')
      have "shell_line (foldl shell_line e ls) l = (foldl shell_line e ls)(k \<mapsto> v)"
        unfolding shell_line_entry[of _ l] using \<open>shell_entry l = Some kv\<close> Some kv' by simp
      also have "\<dots> = (e ++ map_of (rev (List.map_filter stored (List.map_filter shell_entry ls))))(k \<mapsto> v)"
        by (simp only: snoc)
      also have "\<dots> = e ++ map_of (rev (List.map_filter stored (List.map_filter shell_entry (ls @ [l]))))"
        using \<open>shell_entry l = Some kv\<close> Some kv' by (simp add: map_filter_snoc)
      finally show ?thesis
        unfolding step .
    qed
  qed
qed

lemma in_map_filter: "y \<in> set (List.map_filter f xs) \<longleftrightarrow> (\<exists>x\<in>set xs. f x = Some y)"
  by (induction xs) (auto simp: List.map_filter_simps split: option.splits)

lemma stored_key_not_skipped:
  assumes "(k, v) \<in> set (List.map_filter stored (List.map_filter shell_entry ls))"
  shows "\<not> shouldSkipEnvVar k"
proof -
  from assms obtain kv where kv: "kv \<in> set (List.map_filter shell_entry ls)" "stored kv = Some (k, v)"
    by (auto simp: in_map_filter[of _ stored])
  obtain K V where KV: "kv = (K, V)" by (cases kv)
  from kv(1) KV obtain l where "shell_entry l = Some (K, V)"
    by (auto simp: in_map_filter)
  then have "\<not> shouldSkipEnvVar K"
    by (rule shell_entry_not_skipped)
  moreover have "k = cstr K"
    using kv(2) KV by (auto simp: stored_def split: if_splits)
  ultimately show ?thesis
    using startsWith_cstr[of K "''VITE_''"] by (auto simp: shouldSkipEnvVar_def)
qed

lemma shell_merge_skip:
  assumes "shouldSkipEnvVar k"
  shows "shell_merge e output k = e k"
proof -
  have "k \<notin> fst ` set (rev (List.map_filter stored (List.map_filter shell_entry ls)))" for ls
    using assms stored_key_not_skipped by force
  then have "map_of (rev (List.map_filter stored (List.map_filter shell_entry ls))) k = None" for ls
    by (simp add: map_of_eq_None_iff)
  then show ?thesis
    by (simp add: shell_merge_def foldl_shell_line map_add_def)
qed

lemma shell_merge_dom: "dom e \<subseteq> dom (shell_merge e output)"
  by (simp add: shell_merge_def foldl_shell_line)

text \<open>Output without NUL is kept as the shell printed it.\<close>

lemma set_split_str: "x \<in> set (split_str sep s) \<Longrightarrow> set x \<subseteq> set s"
proof (induction sep s arbitrary: x rule: split_str.induct)
  case (1 s)
  then show ?case by auto
next
  case (2 d ds)
  then show ?case by simp
next
  case (3 d ds c s)
  show ?case
  proof (cases "startsWith (c # s) (d # ds)")
    case True
    then have "x = [] \<or> x \<in> set (split_str (d # ds) (drop (length ds) s))"
      using "3.prems" by simp
    then show ?thesis
      using "3.IH"(1)[OF True] by (auto dest: in_set_dropD)
  next
    case False
    let ?r = "split_str (d # ds) s"
    have r: "?r \<noteq> []"
      by (rule split_str_nonempty)
    have hd_in: "hd ?r \<in> set ?r"
      using r by simp
    have hd_sub: "set (hd ?r) \<subseteq> set s"
      using "3.IH"(2)[OF False hd_in] .
    have tl_sub: "set y \<subseteq> set s" if "y \<in> set (tl ?r)" for y
    proof -
      have "y \<in> set ?r"
        using that r by (cases ?r) auto
      then show ?thesis
        using "3.IH"(2)[OF False] by blast
    qed
    have "x = c # hd ?r \<or> x \<in> set (tl ?r)"
      using "3.prems" False by (simp add: Let_def)
    then show ?thesis
    proof
      assume "x = c # hd ?r"
      then show ?thesis using hd_sub by auto
    next
      assume "x \<in> set (tl ?r)"
      then show ?thesis using tl_sub[of x] by auto
    qed
  qed
qed

lemma set_envSection: "set (envSection out) \<subseteq> set out"
proof (cases "split_str marker out")
  case Nil
  then show ?thesis by (simp add: envSection_def)
next
  case (Cons a as)
  show ?thesis
  proof (cases as)
    case Nil
    then show ?thesis using Cons by (simp add: envSection_def)
  next
    case (Cons x xs)
    then have "envSection out = x" "x \<in> set (split_str marker out)"
      using \<open>split_str marker out = a # as\<close> by (simp_all add: envSection_def)
    then show ?thesis
      using set_split_str by simp
  qed
qed

lemma indexOf_less: "0 \<le> indexOf xs c \<Longrightarrow> indexOf xs c < int (length xs)"
  by (induction xs) (auto simp: Let_def split: if_splits)

lemma shell_entry_chars:
  assumes "shell_entry line = Some (K, V)"
  shows "K \<noteq> []" "set K \<subseteq> set line" "set V \<subseteq> set line"
proof -
  from assms have eq: "0 < indexOf line CHR ''=''"
    and K: "K = substring line 0 (indexOf line CHR ''='')"
    and V: "V = substring_from line (indexOf line CHR ''='' + 1)"
    by (auto simp: shell_entry_def Let_def split: if_splits)
  have K': "K = take (nat (indexOf line CHR ''='')) line"
    using eq K by (simp add: substring_prefix)
  have "indexOf line CHR ''='' < int (length line)"
    using eq by (intro indexOf_less) simp
  then show "K \<noteq> []"
    using eq K' by auto
  show "set K \<subseteq> set line"
    unfolding K' by (rule set_take_subset)
  show "set V \<subseteq> set line"
    unfolding V substring_from_def by (rule set_drop_subset)
qed

lemma map_filter_id: "(\<And>x. x \<in> set xs \<Longrightarrow> f x = Some x) \<Longrightarrow> List.map_filter f xs = xs"
  by (induction xs) (simp_all add: List.map_filter_simps)

lemma shell_stored_nul_free:
  assumes "CHR 0x00 \<notin> set out"
  shows "shell_stored out = shell_entries out"
  unfolding shell_stored_def
proof (rule map_filter_id)
  fix kv
  assume "kv \<in> set (shell_entries out)"
  then obtain line where line: "line \<in> set (split_str nl (trim (envSection out)))"
    and kv: "shell_entry line = Some kv"
    by (auto simp: shell_entries_def in_map_filter)
  have "set line \<subseteq> set out"
    using set_split_str[OF line] set_trim[of "envSection out"] set_envSection[of out] by blast
  then have clean: "CHR 0x00 \<notin> set line"
    using assms by auto
  obtain K V where KV: "kv = (K, V)" by (cases kv)
  have "K \<noteq> []" "CHR 0x00 \<notin> set K" "CHR 0x00 \<notin> set V"
    using shell_entry_chars[OF kv[unfolded KV]] clean by auto
  then show "stored kv = Some kv"
    using KV by (simp add: stored_def cstr_id)
qed

lemma PATH_not_skipped: "\<not> shouldSkipEnvVar ''PATH''"
  by (simp add: shouldSkipEnvVar_def startsWith_def)

lemma marker_skipped: "shouldSkipEnvVar ''VITE_DEV_SERVER_URL''"
  by (simp add: shouldSkipEnvVar_def startsWith_def)

lemma distinct_fallbackPaths: "distinct (fallbackPaths e)"
  by (auto simp: fallbackPaths_def dest!: append_eq_suffix)

lemma fallback_other: "k \<noteq> ''PATH'' \<Longrightarrow> fallback e k = e k"
  by (simp add: fallback_def)

lemma fallback_PATH:
  "fallback e ''PATH'' =
     Some (join_str '':'' (fallbackPaths e @
        filter (\<lambda>p. p \<notin> set (fallbackPaths e))
          (first_occurrences [] (split_str '':'' (currentPath e)))))"
  by (simp add: fallback_def dedupe_append_distinct[OF distinct_fallbackPaths])

lemma loadShellEnv_cases:
  "loadShellEnv w e =
     Inr (if platform w \<noteq> ''darwin'' \<or> truthy (e ''VITE_DEV_SERVER_URL'') then e
          else (case execSync w (shell_command (or_default (e ''SHELL'') ''/bin/zsh''))
                       (child_env e (or_default (e ''SHELL'') ''/bin/zsh'')) of
                  Inl err \<Rightarrow> fallback e
                | Inr output \<Rightarrow> shell_merge e output))"
  by (simp add: loadShellEnv_def try_catch_def Let_def split: sum.splits)

subsection \<open>The dotenv loader\<close>

lemma strip_quotes_char:
  "strip_quotes v =
     (if v \<noteq> [] \<and> hd v = last v \<and> (hd v = dquote \<or> hd v = squote)
      then butlast (tl v) else v)"
  by (auto simp: strip_quotes_def startsWith_single endsWith_single slice_1_m1)

lemma dotenv_entry_wrapped:
  assumes key: "key \<noteq> []" "\<not> is_ws (hd key)" "\<not> is_ws (last key)" "hd key \<noteq> CHR ''#''"
    "CHR ''='' \<notin> set key"
    and q: "q = dquote \<or> q = squote"
  shows "dotenv_entry (key @ ''='' @ [q] @ body @ [q]) = Some (key, body)"
proof -
  let ?line = "key @ ''='' @ [q] @ body @ [q]"
  have qws: "\<not> is_ws q"
    using q quote_not_ws by auto
  have "trim ?line = ?line"
    using key qws by (intro trim_id) (auto simp: hd_append)
  moreover have "\<not> startsWith ?line ''#''"
    using key by (cases key) (auto simp: startsWith_def)
  moreover have eq: "indexOf ?line CHR ''='' = int (length key)"
    using indexOf_append_notin[OF key(5), of "[q] @ body @ [q]"] by simp
  moreover have "substring ?line 0 (int (length key)) = key"
    by (simp add: substring_def)
  moreover have "substring_from ?line (int (length key) + 1) = q # body @ [q]"
    by (simp add: substring_from_def nat_add_distrib)
  moreover have "trim (q # body @ [q]) = q # body @ [q]"
    using qws by (intro trim_id) auto
  moreover have "strip_quotes (q # body @ [q]) = body"
    using q by (auto simp: strip_quotes_char)
  moreover have "trim key = key"
    using key by (intro trim_id) auto
  moreover have "?line \<noteq> []" "0 < length key"
    using key by auto
  ultimately show ?thesis
    by (simp add: dotenv_entry_def Let_def)
qed

lemma dotenv_entry_key: "dotenv_entry line = Some (K, v) \<Longrightarrow> CHR ''='' \<notin> set K"
proof -
  assume a: "dotenv_entry line = Some (K, v)"
  then have eq: "0 < indexOf (trim line) CHR ''=''"
    and K: "K = trim (substring (trim line) 0 (indexOf (trim line) CHR ''=''))"
    by (auto simp: dotenv_entry_def Let_def split: if_splits)
  have "K = trim (take (nat (indexOf (trim line) CHR ''='')) (trim line))"
    using eq K by (simp add: substring_prefix)
  then have "set K \<subseteq> set (take (nat (indexOf (trim line) CHR ''='')) (trim line))"
    using set_trim by simp
  then show ?thesis
    using eq indexOf_take[of "trim line" "CHR ''=''"] by auto
qed

lemma inherited_name_cstr: "K \<in> set object_prototype_names \<Longrightarrow> cstr K = K"
  by (rule cstr_id) (auto simp: object_prototype_names_def)

text \<open>One line of the file, seen from one name of the table.\<close>

lemma dotenv_line_key:
  "dotenv_line e l k =
     (case dotenv_entry l of
        None \<Rightarrow> e k
      | Some (K, v) \<Rightarrow>
          if cstr K = k \<and> k \<noteq> [] \<and> \<not> js_truthy (env_get e K) then Some (cstr v) else e k)"
proof (cases "dotenv_entry l")
  case None
  then show ?thesis by (simp add: dotenv_line_def)
next
  case (Some kv)
  obtain K v where kv: "kv = (K, v)" by (cases kv)
  have "CHR ''='' \<notin> set K"
    using Some kv dotenv_entry_key by simp
  then have "env_set e K v k = (if cstr K = k \<and> k \<noteq> [] then Some (cstr v) else e k)"
    by (auto simp: env_set_stored stored_def)
  then show ?thesis
    using Some kv by (simp add: dotenv_line_def)
qed

lemma env_get_truthy:
  "js_truthy (env_get e K) =
     (case e (cstr K) of Some s \<Rightarrow> s \<noteq> [] | None \<Rightarrow> K \<in> set object_prototype_names)"
  by (simp add: env_get_def split: option.splits)

lemma dotenv_values_Cons:
  "dotenv_values k (l # ls) =
     (case dotenv_entry l of
        None \<Rightarrow> dotenv_values k ls
      | Some (K, v) \<Rightarrow>
          if cstr K = k \<and> k \<noteq> [] then cstr v # dotenv_values k ls else dotenv_values k ls)"
  by (auto simp: dotenv_values_def stored_def List.map_filter_simps split: option.splits)

lemma dotenv_values_Nil: "dotenv_values k [] = []"
  by (simp add: dotenv_values_def List.map_filter_simps)

lemma first_nonempty_Cons:
  "first_nonempty old (v # vs) = first_nonempty (if truthy old then old else Some v) vs"
  by (auto simp: first_nonempty_def truthy_def split: option.splits)


text \<open>A name that is empty, or absent and no inherited member, takes the first non-empty
  value.\<close>

lemma foldl_dotenv_line:
  "(e k = None \<longrightarrow> k \<notin> set object_prototype_names) \<Longrightarrow>
   foldl dotenv_line e ls k = first_nonempty (e k) (dotenv_values k ls)"
proof (induction ls arbitrary: e)
  case Nil
  then show ?case by (simp add: dotenv_values_Nil first_nonempty_def)
next
  case (Cons l ls)
  have check: "js_truthy (env_get e K) = truthy (e k)" if "cstr K = k" for K
  proof (cases "e k")
    case None
    then have "k \<notin> set object_prototype_names"
      using Cons.prems by simp
    then have "K \<notin> set object_prototype_names"
      using that inherited_name_cstr[of K] by auto
    then show ?thesis
      using None that by (simp add: env_get_truthy truthy_def)
  next
    case (Some s)
    then show ?thesis
      using that by (simp add: env_get_truthy truthy_def)
  qed
  have line: "dotenv_line e l k =
      (case dotenv_entry l of
         None \<Rightarrow> e k
       | Some (K, v) \<Rightarrow>
           if cstr K = k \<and> k \<noteq> [] \<and> \<not> truthy (e k) then Some (cstr v) else e k)"
    using check by (auto simp: dotenv_line_key split: option.splits)
  have keep: "dotenv_line e l k = None \<longrightarrow> k \<notin> set object_prototype_names"
    using Cons.prems by (auto simp: line split: option.splits if_splits)
  have step: "foldl dotenv_line e (l # ls) k
      = first_nonempty (dotenv_line e l k) (dotenv_values k ls)"
    using Cons.IH[of "dotenv_line e l"] keep by simp
  show ?case
  proof (cases "dotenv_entry l")
    case None
    then show ?thesis unfolding step by (simp add: line dotenv_values_Cons)
  next
    case (Some kv)
    obtain K v where kv: "kv = (K, v)" by (cases kv)
    show ?thesis unfolding step using Some kv
      by (simp add: line dotenv_values_Cons first_nonempty_Cons)
  qed
qed


lemma dotenv_merge_key:
  "(e k = None \<longrightarrow> k \<notin> set object_prototype_names) \<Longrightarrow>
   dotenv_merge e envContent k =
     first_nonempty (e k) (dotenv_values k (split_str nl envContent))"
  by (simp add: dotenv_merge_def foldl_dotenv_line)


lemma find_after_empties:
  "set empties \<subseteq> {[]} \<Longrightarrow> v \<noteq> [] \<Longrightarrow> find (\<lambda>v. v \<noteq> []) (empties @ v # rest) = Some v"
  by (induction empties) auto

lemma dotenv_line_dom: "dom e \<subseteq> dom (dotenv_line e l)"
  by (auto simp: dotenv_line_def env_set_def Let_def split: option.splits)

lemma foldl_dotenv_dom: "dom e \<subseteq> dom (foldl dotenv_line e ls)"
proof (induction ls arbitrary: e)
  case Nil
  then show ?case by simp
next
  case (Cons l ls)
  show ?case using Cons[of "dotenv_line e l"] dotenv_line_dom[of e l] by auto
qed

lemma loadDotEnv_cases:
  "loadDotEnv w e =
     Inr (if \<not> truthy (e ''VITE_DEV_SERVER_URL'') then e
          else (case cwd w of Inl err \<Rightarrow> e
                | Inr dir \<Rightarrow>
                    if \<not> existsSync w (path_join w dir ''.env'') then e
                    else (case readFileSync w (path_join w dir ''.env'') of
                            Inl err \<Rightarrow> e
                          | Inr envContent \<Rightarrow> dotenv_merge e envContent)))"
  by (simp add: loadDotEnv_def try_catch_def Let_def split: sum.splits)

subsection \<open>Unfolding the definitions on sample inputs\<close>

lemmas js_defs = trim_def is_ws_def startsWith_def endsWith_def substring_def
  substring_from_def slice_def truthy_def or_default_def interpolate_def Let_def
  cstr_def env_set_def env_get_def object_prototype_names_def

lemmas shell_defs = shell_merge_def envSection_def marker_def shell_line_def shouldSkipEnvVar_def

lemmas dotenv_defs = dotenv_merge_def dotenv_line_def dotenv_entry_def strip_quotes_def

lemma dev_env_FOO: "dotenv_merge dev_env ''FOO=1'' = dev_env(''FOO'' \<mapsto> ''1'')"
  by (simp add: dotenv_defs js_defs dev_env_def)

section \<open>Properties of the loaders\<close>

subsection \<open>C1: the gate of loadDotEnv\<close>

text \<open>
  C1, as amended. \<open>loadDotEnv\<close> begins with \<open>if (!process.env.VITE_DEV_SERVER_URL) return\<close>:
  it runs only when the dev-server marker variable is set to a non-empty string. When the
  marker is absent or empty the call returns the environment unchanged; when the marker is
  set and the \<open>.env\<close> file of the working directory can be read, the result is the
  environment with the file's lines merged in.
\<close>

theorem loadDotEnv_gate:
  "(\<not> truthy (e ''VITE_DEV_SERVER_URL'') \<longrightarrow> loadDotEnv w e = Inr e) \<and>
   (truthy (e ''VITE_DEV_SERVER_URL'') \<and> cwd w = Inr dir \<and>
    existsSync w (path_join w dir ''.env'') \<and>
    readFileSync w (path_join w dir ''.env'') = Inr envContent
      \<longrightarrow> loadDotEnv w e = Inr (dotenv_merge e envContent))"
  by (simp add: loadDotEnv_cases)

theorem loadDotEnv_gate_witness:
  "loadDotEnv (sample_world (Inr []) (Inr ''FOO=1'')) Map.empty = Inr Map.empty \<and>
   loadDotEnv (sample_world (Inr []) (Inr ''FOO=1'')) dev_env = Inr (dev_env(''FOO'' \<mapsto> ''1''))"
proof -
  have a: "\<not> truthy (Map.empty ''VITE_DEV_SERVER_URL'')"
    by (simp add: truthy_def)
  have b: "truthy (dev_env ''VITE_DEV_SERVER_URL'')"
    by (simp add: truthy_def dev_env_def)
  have c: "cwd (sample_world (Inr []) (Inr ''FOO=1'')) = Inr ''/proj''"
    "existsSync (sample_world (Inr []) (Inr ''FOO=1''))
       (path_join (sample_world (Inr []) (Inr ''FOO=1'')) ''/proj'' ''.env'')"
    "readFileSync (sample_world (Inr []) (Inr ''FOO=1''))
       (path_join (sample_world (Inr []) (Inr ''FOO=1'')) ''/proj'' ''.env'') = Inr ''FOO=1''"
    by (simp_all add: sample_world_def)
  show ?thesis
    using loadDotEnv_gate[of Map.empty "sample_world (Inr []) (Inr ''FOO=1'')"]
      loadDotEnv_gate[of dev_env "sample_world (Inr []) (Inr ''FOO=1'')" "''/proj''" "''FOO=1''"]
      a b c
    by (simp only: dev_env_FOO simp_thms)
qed

text \<open>
  The property as first stated fails: with the marker set and \<open>FOO=1\<close> in the file, the call
  adds \<open>FOO\<close> to the environment.
\<close>

theorem loadDotEnv_gate_counterexample:
  "truthy (dev_env ''VITE_DEV_SERVER_URL'') \<and>
   loadDotEnv (sample_world (Inr []) (Inr ''FOO=1'')) dev_env \<noteq> Inr dev_env"
proof -
  have "loadDotEnv (sample_world (Inr []) (Inr ''FOO=1'')) dev_env = Inr (dev_env(''FOO'' \<mapsto> ''1''))"
    by (simp add: loadDotEnv_cases sample_world_def dev_env_FOO) (simp add: dev_env_def truthy_def)
  moreover have "dev_env(''FOO'' \<mapsto> ''1'') \<noteq> dev_env"
    by (auto simp: dev_env_def dest: fun_cong[where x = "''FOO''"])
  moreover have "truthy (dev_env ''VITE_DEV_SERVER_URL'')"
    by (simp add: truthy_def dev_env_def)
  ultimately show ?thesis by simp
qed

subsection \<open>C2: keys with the dev-server prefix\<close>

text \<open>
  C2, as amended. The shell loader never adds, removes or changes an entry whose key begins
  with \<open>VITE_\<close>: its merge skips such keys and its fallback writes \<open>PATH\<close> only.
  Neither loader removes an entry. \<open>loadDotEnv\<close> has no such filter; when the marker
  variable is absent or empty before the shell loader runs, \<open>loadDotEnv\<close> does not run
  and the entries with the prefix are the same after both loaders as before.
\<close>

theorem vite_keys_after_loaders:
  "\<exists>e1 e2. loadShellEnv w e = Inr e1 \<and> loadDotEnv w e1 = Inr e2 \<and>
     (\<forall>k. shouldSkipEnvVar k \<longrightarrow> e1 k = e k) \<and>
     (\<forall>k. k \<in> dom e \<longrightarrow> k \<in> dom e1 \<and> k \<in> dom e2) \<and>
     (\<not> truthy (e ''VITE_DEV_SERVER_URL'') \<longrightarrow> (\<forall>k. shouldSkipEnvVar k \<longrightarrow> e2 k = e k))"
proof -
  obtain e1 where e1: "loadShellEnv w e = Inr e1"
    by (simp add: loadShellEnv_cases)
  obtain e2 where e2: "loadDotEnv w e1 = Inr e2"
    by (simp add: loadDotEnv_cases)
  have skip: "e1 k = e k" if "shouldSkipEnvVar k" for k
  proof -
    have "k \<noteq> ''PATH''" using that PATH_not_skipped by auto
    then show ?thesis
      using e1 that by (auto simp: loadShellEnv_cases shell_merge_skip fallback_other split: sum.splits)
  qed
  have d1: "dom e \<subseteq> dom e1"
    using e1 shell_merge_dom[of e] by (auto simp: loadShellEnv_cases fallback_def split: sum.splits if_splits)
  have d2: "dom e1 \<subseteq> dom e2"
    using e2 foldl_dotenv_dom[of e1]
    by (auto simp: loadDotEnv_cases dotenv_merge_def split: sum.splits if_splits)
  have off: "e2 = e1" if "\<not> truthy (e ''VITE_DEV_SERVER_URL'')"
  proof -
    have "e1 ''VITE_DEV_SERVER_URL'' = e ''VITE_DEV_SERVER_URL''"
      by (rule skip) (rule marker_skipped)
    then show ?thesis using that e2 by (simp add: loadDotEnv_cases)
  qed
  have d3: "k \<in> dom e1 \<and> k \<in> dom e2" if "k \<in> dom e" for k
    using that d1 d2 by blast
  show ?thesis
    using e1 e2 skip d3 off by (rule_tac x = e1 in exI, rule_tac x = e2 in exI) simp
qed

theorem vite_keys_after_loaders_witness:
  "\<exists>e1 e2.
     loadShellEnv (sample_world (Inr shell_demo_output) (Inr ''VITE_Y=2'')) launch_env = Inr e1 \<and>
     loadDotEnv (sample_world (Inr shell_demo_output) (Inr ''VITE_Y=2'')) e1 = Inr e2 \<and>
     e1 ''VITE_X'' = None \<and> e1 ''VITE_OLD'' = Some ''keep'' \<and>
     e2 ''VITE_X'' = None \<and> e2 ''VITE_Y'' = None \<and> e2 ''VITE_OLD'' = Some ''keep''"
proof -
  have skipped: "shouldSkipEnvVar ''VITE_X''" "shouldSkipEnvVar ''VITE_Y''"
    "shouldSkipEnvVar ''VITE_OLD''"
    by (simp_all add: shouldSkipEnvVar_def startsWith_def)
  have off: "\<not> truthy (launch_env ''VITE_DEV_SERVER_URL'')"
    by (simp add: launch_env_def truthy_def)
  have before: "launch_env ''VITE_X'' = None" "launch_env ''VITE_Y'' = None"
    "launch_env ''VITE_OLD'' = Some ''keep''"
    by (simp_all add: launch_env_def)
  show ?thesis
    using vite_keys_after_loaders
      [of "sample_world (Inr shell_demo_output) (Inr ''VITE_Y=2'')" launch_env]
      skipped off before
    by (elim exE conjE) (rule_tac x = e1 in exI, rule_tac x = e2 in exI, simp)
qed

text \<open>
  The property as first stated fails for the \<open>.env\<close> file: in a development session the shell
  loader changes nothing, and \<open>loadDotEnv\<close> then writes the \<open>VITE_X\<close> of the file.
\<close>

theorem vite_keys_after_loaders_counterexample:
  "loadShellEnv (sample_world (Inr []) (Inr ''VITE_X=1'')) dev_env = Inr dev_env \<and>
   dev_env ''VITE_X'' = None \<and>
   (case loadDotEnv (sample_world (Inr []) (Inr ''VITE_X=1'')) dev_env of
      Inl err \<Rightarrow> None | Inr e2 \<Rightarrow> e2 ''VITE_X'') = Some ''1''"
proof -
  have on: "truthy (dev_env ''VITE_DEV_SERVER_URL'')"
    by (simp add: dev_env_def truthy_def)
  have "dotenv_merge dev_env ''VITE_X=1'' ''VITE_X'' = Some ''1''"
    by (simp add: dotenv_defs js_defs dev_env_def)
  then show ?thesis
    using on by (simp add: loadShellEnv_cases loadDotEnv_cases sample_world_def) (simp add: dev_env_def)
qed

subsection \<open>C3: failures of the shell invocation and of parsing\<close>

text \<open>
  C3, as amended. When \<open>execSync\<close> throws (spawn error, non-zero exit, timeout), the
  exception is caught and the result is the environment with the fallback \<open>PATH\<close>
  written. When the shell returns output in which the marker token does not occur, nothing
  is thrown: \<open>output.split('__ENV_START__')[1] || ''\<close> is the empty string, the loop finds
  no entry, and the environment is returned unchanged, with no fallback \<open>PATH\<close>.
\<close>

theorem loadShellEnv_failure_handling:
  "platform w = ''darwin'' \<and> \<not> truthy (e ''VITE_DEV_SERVER_URL'') \<longrightarrow>
     (\<forall>err. execSync w (shell_command (or_default (e ''SHELL'') ''/bin/zsh''))
               (child_env e (or_default (e ''SHELL'') ''/bin/zsh'')) = Inl err
            \<longrightarrow> loadShellEnv w e = Inr (fallback e)) \<and>
     (\<forall>output. execSync w (shell_command (or_default (e ''SHELL'') ''/bin/zsh''))
               (child_env e (or_default (e ''SHELL'') ''/bin/zsh'')) = Inr output \<and>
             \<not> str_includes output marker
            \<longrightarrow> loadShellEnv w e = Inr e)"
proof (intro impI conjI allI; elim conjE)
  fix err
  assume "platform w = ''darwin''" "\<not> truthy (e ''VITE_DEV_SERVER_URL'')"
    "execSync w (shell_command (or_default (e ''SHELL'') ''/bin/zsh''))
       (child_env e (or_default (e ''SHELL'') ''/bin/zsh'')) = Inl err"
  then show "loadShellEnv w e = Inr (fallback e)"
    by (simp add: loadShellEnv_cases)
next
  fix out
  assume gate: "platform w = ''darwin''" "\<not> truthy (e ''VITE_DEV_SERVER_URL'')"
    and out: "execSync w (shell_command (or_default (e ''SHELL'') ''/bin/zsh''))
       (child_env e (or_default (e ''SHELL'') ''/bin/zsh'')) = Inr out"
    and no_marker: "\<not> str_includes out marker"
  have "split_str marker out = [out]"
    using no_marker split_str_no_sep[of out "CHR ''_''" "''_ENV_START__''"]
    by (simp add: marker_def)
  then have "envSection out = []"
    by (simp add: envSection_def)
  then have "shell_merge e out = e"
    by (simp add: shell_merge_def trim_def shell_line_def)
  then show "loadShellEnv w e = Inr e"
    using gate out by (simp add: loadShellEnv_cases)
qed

theorem loadShellEnv_failure_handling_witness:
  "loadShellEnv (sample_world (Inl Timeout) (Inr [])) launch_env = Inr (fallback launch_env) \<and>
   loadShellEnv (sample_world (Inr ''Last login: Mon Nov 2 09:00:00 on ttys000'') (Inr [])) launch_env
     = Inr launch_env"
proof -
  have gate: "\<not> truthy (launch_env ''VITE_DEV_SERVER_URL'')"
    by (simp add: launch_env_def truthy_def)
  have no_marker: "\<not> str_includes ''Last login: Mon Nov 2 09:00:00 on ttys000'' marker"
    by (simp add: marker_def startsWith_def)
  show ?thesis
    using loadShellEnv_failure_handling[of "sample_world (Inl Timeout) (Inr [])" launch_env]
      loadShellEnv_failure_handling
        [of "sample_world (Inr ''Last login: Mon Nov 2 09:00:00 on ttys000'') (Inr [])" launch_env]
      gate no_marker
    by (simp add: sample_world_def)
qed

text \<open>
  The property as first stated fails for the parse failure: the marker is missing from the output,
  the call returns the environment as it was, and \<open>PATH\<close> is not the fallback \<open>PATH\<close>.
\<close>

theorem loadShellEnv_failure_handling_counterexample:
  "\<not> str_includes ''Last login: Mon Nov 2 09:00:00 on ttys000'' marker \<and>
   loadShellEnv (sample_world (Inr ''Last login: Mon Nov 2 09:00:00 on ttys000'') (Inr [])) launch_env
     = Inr launch_env \<and>
   fallback launch_env ''PATH'' \<noteq> launch_env ''PATH''"
proof -
  have gate: "\<not> truthy (launch_env ''VITE_DEV_SERVER_URL'')"
    by (simp add: launch_env_def truthy_def)
  have no_marker: "\<not> str_includes ''Last login: Mon Nov 2 09:00:00 on ttys000'' marker"
    by (simp add: marker_def startsWith_def)
  have "shell_merge launch_env ''Last login: Mon Nov 2 09:00:00 on ttys000'' = launch_env"
    by (simp add: shell_defs js_defs)
  then have "loadShellEnv (sample_world (Inr ''Last login: Mon Nov 2 09:00:00 on ttys000'') (Inr [])) launch_env
     = Inr launch_env"
    using gate by (simp add: loadShellEnv_cases sample_world_def)
  moreover have "fallback launch_env ''PATH'' \<noteq> launch_env ''PATH''"
    by (simp add: fallback_def fallbackPaths_def launch_env_def dedupe_def currentPath_def js_defs)
  ultimately show ?thesis using no_marker by simp
qed

subsection \<open>C4: what the output parser takes as environment data\<close>

text \<open>
  C4. The source takes \<open>output.split('__ENV_START__')[1]\<close>, the text between the first
  and the second occurrence of the marker, not all text after the first. With the output
  \<open>__ENV_START__\<close>, \<open>A=1\<close>, \<open>NOTE=__ENV_START__\<close>, \<open>B=2\<close> (one per line) the line
  \<open>B=2\<close> stands after the marker, has a non-empty key that passes the skip filter, and is
  not merged; \<open>NOTE\<close> loses its value.
\<close>

theorem second_marker_drops_entries:
  "shell_entry ''B=2'' = Some (''B'', ''2'') \<and>
   loadShellEnv (sample_world (Inr two_marker_output) (Inr [])) Map.empty
     = Inr [''A'' \<mapsto> ''1'', ''NOTE'' \<mapsto> [] ]"
proof -
  have "shell_entry ''B=2'' = Some (''B'', ''2'')"
    by (simp add: shell_entry_def shouldSkipEnvVar_def js_defs)
  moreover have "shell_merge Map.empty two_marker_output = [''A'' \<mapsto> ''1'', ''NOTE'' \<mapsto> [] ]"
    by (simp add: two_marker_output_def shell_defs js_defs)
  ultimately show ?thesis
    by (simp add: loadShellEnv_cases sample_world_def truthy_def)
qed

text \<open>
  The other half of the property holds: whatever stands before the first occurrence of the
  marker has no influence on the result of the merge.
\<close>

lemma text_before_marker_ignored:
  assumes "\<not> str_includes (banner @ butlast marker) marker"
  shows "shell_merge e (banner @ marker @ rest) = shell_merge e (marker @ rest)"
proof -
  have "\<not> str_includes ([] @ butlast marker) marker"
    by (simp add: marker_def startsWith_def)
  then have "envSection ([] @ marker @ rest) = hd (split_str marker rest)"
    by (rule envSection_after_first_marker)
  moreover have "envSection (banner @ marker @ rest) = hd (split_str marker rest)"
    using assms by (rule envSection_after_first_marker)
  ultimately show ?thesis
    by (simp add: shell_merge_def)
qed

subsection \<open>C5: the fallback PATH\<close>

text \<open>
  C5, as amended. When the fallback branch runs, the new \<open>PATH\<close> is the seven fallback
  directories, each once and in their declared order, followed by the entries of the
  current path that are not fallback directories, with duplicates removed and first
  occurrences kept, joined by \<open>:\<close>. The current path is the old \<open>PATH\<close> when that is
  set and not empty, and \<open>/usr/bin:/bin:/usr/sbin:/sbin\<close> otherwise. No entry other than
  \<open>PATH\<close> changes.
\<close>

theorem fallback_path_synthesis:
  "platform w = ''darwin'' \<and> \<not> truthy (e ''VITE_DEV_SERVER_URL'') \<and>
   execSync w (shell_command (or_default (e ''SHELL'') ''/bin/zsh''))
     (child_env e (or_default (e ''SHELL'') ''/bin/zsh'')) = Inl err \<longrightarrow>
     (\<exists>e'. loadShellEnv w e = Inr e' \<and>
        e' ''PATH'' =
          Some (join_str '':'' (fallbackPaths e @
             filter (\<lambda>p. p \<notin> set (fallbackPaths e))
               (first_occurrences [] (split_str '':'' (currentPath e))))) \<and>
        distinct (fallbackPaths e @
             filter (\<lambda>p. p \<notin> set (fallbackPaths e))
               (first_occurrences [] (split_str '':'' (currentPath e)))) \<and>
        (\<forall>k. k \<noteq> ''PATH'' \<longrightarrow> e' k = e k)) \<and>
     (truthy (e ''PATH'') \<longrightarrow> Some (currentPath e) = e ''PATH'') \<and>
     (\<not> truthy (e ''PATH'') \<longrightarrow> currentPath e = ''/usr/bin:/bin:/usr/sbin:/sbin'')"
proof (intro impI conjI; (elim conjE)?)
  assume "platform w = ''darwin''" "\<not> truthy (e ''VITE_DEV_SERVER_URL'')"
    "execSync w (shell_command (or_default (e ''SHELL'') ''/bin/zsh''))
       (child_env e (or_default (e ''SHELL'') ''/bin/zsh'')) = Inl err"
  then have run: "loadShellEnv w e = Inr (fallback e)"
    by (simp add: loadShellEnv_cases)
  have "distinct (fallbackPaths e @
             filter (\<lambda>p. p \<notin> set (fallbackPaths e))
               (first_occurrences [] (split_str '':'' (currentPath e))))"
    using distinct_fallbackPaths[of e] by (auto simp: first_occurrences_distinct)
  then show "\<exists>e'. loadShellEnv w e = Inr e' \<and>
        e' ''PATH'' =
          Some (join_str '':'' (fallbackPaths e @
             filter (\<lambda>p. p \<notin> set (fallbackPaths e))
               (first_occurrences [] (split_str '':'' (currentPath e))))) \<and>
        distinct (fallbackPaths e @
             filter (\<lambda>p. p \<notin> set (fallbackPaths e))
               (first_occurrences [] (split_str '':'' (currentPath e)))) \<and>
        (\<forall>k. k \<noteq> ''PATH'' \<longrightarrow> e' k = e k)"
    using run fallback_PATH[of e] by (simp add: fallback_other)
next
  assume "truthy (e ''PATH'')"
  then show "Some (currentPath e) = e ''PATH''"
    by (cases "e ''PATH''") (simp_all add: currentPath_def or_default_def truthy_def)
next
  assume "\<not> truthy (e ''PATH'')"
  then show "currentPath e = ''/usr/bin:/bin:/usr/sbin:/sbin''"
    by (simp add: currentPath_def or_default_def)
qed

theorem fallback_path_synthesis_witness:
  "\<exists>e'. loadShellEnv (sample_world (Inl SpawnFailure) (Inr [])) home_env = Inr e' \<and>
     e' ''PATH'' = Some (''/opt/homebrew/bin:/opt/homebrew/sbin:/usr/local/bin:/usr/local/sbin:'' @
                       ''/Users/me/.local/bin:/Users/me/.bun/bin:/Users/me/.cargo/bin:'' @
                       ''/usr/bin:/bin'') \<and>
     e' ''HOME'' = Some ''/Users/me'' \<and>
     Some (currentPath home_env) = home_env ''PATH'' \<and>
     currentPath empty_path_env = ''/usr/bin:/bin:/usr/sbin:/sbin''"
proof -
  let ?w = "sample_world (Inl SpawnFailure) (Inr [])"
  have run: "platform ?w = ''darwin''" "execSync ?w c ce = Inl SpawnFailure" for c ce
    by (simp_all add: sample_world_def)
  have gate: "\<not> truthy (home_env ''VITE_DEV_SERVER_URL'')"
    "\<not> truthy (empty_path_env ''VITE_DEV_SERVER_URL'')"
    by (simp_all add: home_env_def empty_path_env_def truthy_def)
  have paths: "truthy (home_env ''PATH'')" "\<not> truthy (empty_path_env ''PATH'')"
    by (simp_all add: home_env_def empty_path_env_def truthy_def)
  have cur: "currentPath home_env = ''/usr/local/bin:/usr/bin:/bin:/usr/bin''"
    by (simp add: currentPath_def or_default_def truthy_def home_env_def)
  have fb: "fallbackPaths home_env =
      [''/opt/homebrew/bin'', ''/opt/homebrew/sbin'', ''/usr/local/bin'', ''/usr/local/sbin'',
       ''/Users/me/.local/bin'', ''/Users/me/.bun/bin'', ''/Users/me/.cargo/bin'']"
    by (simp add: fallbackPaths_def interpolate_def home_env_def)
  have val: "join_str '':'' (fallbackPaths home_env @
             filter (\<lambda>p. p \<notin> set (fallbackPaths home_env))
               (first_occurrences [] (split_str '':'' (currentPath home_env))))
         = ''/opt/homebrew/bin:/opt/homebrew/sbin:/usr/local/bin:/usr/local/sbin:'' @
           ''/Users/me/.local/bin:/Users/me/.bun/bin:/Users/me/.cargo/bin:'' @
           ''/usr/bin:/bin''"
    unfolding cur fb by (simp add: startsWith_def)
  note at_home = fallback_path_synthesis[of ?w home_env SpawnFailure, THEN mp,
      OF conjI[OF run(1) conjI[OF gate(1) run(2)]]]
  note at_empty = fallback_path_synthesis[of ?w empty_path_env SpawnFailure, THEN mp,
      OF conjI[OF run(1) conjI[OF gate(2) run(2)]]]
  from at_home obtain e' where e': "loadShellEnv ?w home_env = Inr e'"
    "e' ''PATH'' = Some (join_str '':'' (fallbackPaths home_env @
             filter (\<lambda>p. p \<notin> set (fallbackPaths home_env))
               (first_occurrences [] (split_str '':'' (currentPath home_env)))))"
    "\<forall>k. k \<noteq> ''PATH'' \<longrightarrow> e' k = home_env k"
    by blast
  have "e' ''HOME'' = Some ''/Users/me''"
    using e'(3) by (simp add: home_env_def)
  moreover have "Some (currentPath home_env) = home_env ''PATH''"
    using at_home paths(1) by blast
  moreover have "currentPath empty_path_env = ''/usr/bin:/bin:/usr/sbin:/sbin''"
    using at_empty paths(2) by blast
  ultimately show ?thesis
    using e'(1) e'(2) unfolding val by (intro exI[of _ e']) simp
qed

text \<open>
  The property as first stated fails for the empty \<open>PATH\<close>: the four directories of the default
  path follow the fallback directories, and none of them is an entry of the old \<open>PATH\<close>.
\<close>

theorem fallback_path_synthesis_counterexample:
  "empty_path_env ''PATH'' = Some [] \<and>
   loadShellEnv (sample_world (Inl SpawnFailure) (Inr [])) empty_path_env
     = Inr (fallback empty_path_env) \<and>
   fallback empty_path_env ''PATH'' =
     Some (''/opt/homebrew/bin:/opt/homebrew/sbin:/usr/local/bin:/usr/local/sbin:'' @
           ''/Users/me/.local/bin:/Users/me/.bun/bin:/Users/me/.cargo/bin:'' @
           ''/usr/bin:/bin:/usr/sbin:/sbin'') \<and>
   fallback empty_path_env ''PATH'' \<noteq>
     Some (join_str '':'' (fallbackPaths empty_path_env @
        filter (\<lambda>p. p \<notin> set (fallbackPaths empty_path_env))
          (first_occurrences [] (split_str '':'' []))))"
proof -
  have gate: "\<not> truthy (empty_path_env ''VITE_DEV_SERVER_URL'')"
    by (simp add: empty_path_env_def truthy_def)
  have cur: "currentPath empty_path_env = ''/usr/bin:/bin:/usr/sbin:/sbin''"
    by (simp add: currentPath_def or_default_def truthy_def empty_path_env_def)
  have fb: "fallbackPaths empty_path_env =
      [''/opt/homebrew/bin'', ''/opt/homebrew/sbin'', ''/usr/local/bin'', ''/usr/local/sbin'',
       ''/Users/me/.local/bin'', ''/Users/me/.bun/bin'', ''/Users/me/.cargo/bin'']"
    by (simp add: fallbackPaths_def interpolate_def empty_path_env_def)
  have val: "fallback empty_path_env ''PATH'' =
     Some (''/opt/homebrew/bin:/opt/homebrew/sbin:/usr/local/bin:/usr/local/sbin:'' @
           ''/Users/me/.local/bin:/Users/me/.bun/bin:/Users/me/.cargo/bin:'' @
           ''/usr/bin:/bin:/usr/sbin:/sbin'')"
    unfolding fallback_PATH cur fb by (simp add: startsWith_def)
  have other: "join_str '':'' (fallbackPaths empty_path_env @
        filter (\<lambda>p. p \<notin> set (fallbackPaths empty_path_env))
          (first_occurrences [] (split_str '':'' [])))
      = ''/opt/homebrew/bin:/opt/homebrew/sbin:/usr/local/bin:/usr/local/sbin:'' @
        ''/Users/me/.local/bin:/Users/me/.bun/bin:/Users/me/.cargo/bin:''"
    unfolding fb by simp
  have run: "loadShellEnv (sample_world (Inl SpawnFailure) (Inr [])) empty_path_env
     = Inr (fallback empty_path_env)"
    using gate by (simp add: loadShellEnv_cases sample_world_def)
  show ?thesis
    unfolding val other using run by (simp add: empty_path_env_def)
qed

subsection \<open>C6: the shell's values take precedence\<close>

text \<open>
  C6, as amended. When the shell invocation succeeds, every entry of the output that
  survives the skip filter is assigned to \<open>process.env\<close>, whatever the key held before.
  The environment table keeps key and value up to their first NUL and ignores an entry
  whose key is then empty: after the call every name of such an entry holds the value kept
  of the last entry for it, and every other name holds what it held before. For output
  without NUL the table keeps the entries as the shell reported them: with \<open>PATH=/bin\<close>
  before and \<open>PATH=/usr/local/bin:/bin\<close> reported, \<open>PATH\<close> is
  \<open>/usr/local/bin:/bin\<close> afterwards.
\<close>

theorem shell_merge_overwrites:
  "platform w = ''darwin'' \<and> \<not> truthy (e ''VITE_DEV_SERVER_URL'') \<and>
   execSync w (shell_command (or_default (e ''SHELL'') ''/bin/zsh''))
     (child_env e (or_default (e ''SHELL'') ''/bin/zsh'')) = Inr out \<longrightarrow>
     (\<exists>e'. loadShellEnv w e = Inr e' \<and>
        (\<forall>k. e' k = (case map_of (rev (shell_stored out)) k of
                        Some v \<Rightarrow> Some v
                      | None \<Rightarrow> e k)) \<and>
        (CHR 0x00 \<notin> set out \<longrightarrow> shell_stored out = shell_entries out))"
  by (simp add: loadShellEnv_cases shell_merge_def shell_entries_def shell_stored_def
      foldl_shell_line map_add_def shell_stored_nul_free[unfolded shell_stored_def shell_entries_def])

theorem shell_merge_overwrites_witness:
  "seed_env ''PATH'' = Some ''/bin'' \<and>
   shell_entries path_output = [(''PATH'', ''/usr/local/bin:/bin'')] \<and>
   (\<exists>e'. loadShellEnv (sample_world (Inr path_output) (Inr [])) seed_env = Inr e' \<and>
      e' ''PATH'' = Some ''/usr/local/bin:/bin'')"
proof -
  let ?w = "sample_world (Inr path_output) (Inr [])"
  have run: "platform ?w = ''darwin''" "execSync ?w c ce = Inr path_output" for c ce
    by (simp_all add: sample_world_def)
  have gate: "\<not> truthy (seed_env ''VITE_DEV_SERVER_URL'')"
    by (simp add: seed_env_def truthy_def)
  have entries: "shell_entries path_output = [(''PATH'', ''/usr/local/bin:/bin'')]"
    by (simp add: shell_entries_def path_output_def envSection_def marker_def shell_entry_def
        shouldSkipEnvVar_def List.map_filter_simps js_defs)
  have no_nul: "CHR 0x00 \<notin> set path_output"
    by (simp add: path_output_def)
  from shell_merge_overwrites[of ?w seed_env path_output, THEN mp,
      OF conjI[OF run(1) conjI[OF gate run(2)]]]
  obtain e' where e': "loadShellEnv ?w seed_env = Inr e'"
    "\<forall>k. e' k = (case map_of (rev (shell_stored path_output)) k of
                        Some v \<Rightarrow> Some v
                      | None \<Rightarrow> seed_env k)"
    "CHR 0x00 \<notin> set path_output \<longrightarrow> shell_stored path_output = shell_entries path_output"
    by blast
  have "shell_stored path_output = [(''PATH'', ''/usr/local/bin:/bin'')]"
    using e'(3) no_nul entries by simp
  then have "e' ''PATH'' = Some ''/usr/local/bin:/bin''"
    using e'(2) by simp
  moreover have "seed_env ''PATH'' = Some ''/bin''"
    by (simp add: seed_env_def)
  ultimately show ?thesis using e'(1) entries by blast
qed

text \<open>
  The property as first stated fails for a value with a NUL in it: the shell output gives
  the entry \<open>A\<close> with the value \<open>x\<close>, NUL, \<open>y\<close>, and the table holds \<open>x\<close> for
  \<open>A\<close> afterwards.
\<close>

theorem shell_merge_overwrites_counterexample:
  "shell_entries nul_output = [(''A'', ''x'' @ [CHR 0x00] @ ''y'')] \<and>
   loadShellEnv (sample_world (Inr nul_output) (Inr [])) Map.empty = Inr [''A'' \<mapsto> ''x''] \<and>
   ''x'' \<noteq> ''x'' @ [CHR 0x00] @ ''y''"
proof -
  have "shell_entries nul_output = [(''A'', ''x'' @ [CHR 0x00] @ ''y'')]"
    by (simp add: shell_entries_def nul_output_def envSection_def marker_def shell_entry_def
        shouldSkipEnvVar_def List.map_filter_simps js_defs)
  moreover have "shell_merge Map.empty nul_output = [''A'' \<mapsto> ''x'']"
    by (simp add: nul_output_def shell_defs js_defs)
  ultimately show ?thesis
    by (simp add: loadShellEnv_cases sample_world_def truthy_def)
qed

subsection \<open>C7: the environment wins over the file\<close>



subsection \<open>C8: quotes around a value\<close>

text \<open>
  C8, as amended. The trimmed value loses its first and last character exactly when it
  begins and ends with the same quote character, \<open>"\<close> or \<open>'\<close>; what stands between them
  is kept as it is, with no escape processing. So \<open>KEY="value with spaces"\<close> gives
  \<open>value with spaces\<close>, and \<open>KEY='a'b'\<close>, which begins and ends with \<open>'\<close>, gives
  \<open>a'b\<close>. A value that begins with one quote character and ends with the other, such as
  \<open>'a"\<close>, is kept whole.
\<close>

theorem dotenv_quote_stripping:
  "(key \<noteq> [] \<and> \<not> is_ws (hd key) \<and> \<not> is_ws (last key) \<and> hd key \<noteq> CHR ''#'' \<and>
    CHR ''='' \<notin> set key \<and> (q = dquote \<or> q = squote)
      \<longrightarrow> dotenv_entry (key @ ''='' @ [q] @ body @ [q]) = Some (key, body)) \<and>
   (dotenv_entry line = Some (k, v) \<longrightarrow>
      (let raw = trim (substring_from (trim line) (indexOf (trim line) CHR ''='' + 1))
       in v = (if raw \<noteq> [] \<and> hd raw = last raw \<and> (hd raw = dquote \<or> hd raw = squote)
               then butlast (tl raw) else raw)))"
proof (intro conjI impI)
  assume "key \<noteq> [] \<and> \<not> is_ws (hd key) \<and> \<not> is_ws (last key) \<and> hd key \<noteq> CHR ''#'' \<and>
    CHR ''='' \<notin> set key \<and> (q = dquote \<or> q = squote)"
  then show "dotenv_entry (key @ ''='' @ [q] @ body @ [q]) = Some (key, body)"
    by (intro dotenv_entry_wrapped) simp_all
next
  assume "dotenv_entry line = Some (k, v)"
  then show "let raw = trim (substring_from (trim line) (indexOf (trim line) CHR ''='' + 1))
       in v = (if raw \<noteq> [] \<and> hd raw = last raw \<and> (hd raw = dquote \<or> hd raw = squote)
               then butlast (tl raw) else raw)"
    by (auto simp: dotenv_entry_def Let_def strip_quotes_char split: if_splits)
qed

theorem dotenv_quote_stripping_witness:
  "dotenv_entry (''KEY='' @ [dquote] @ ''value with spaces'' @ [dquote])
     = Some (''KEY'', ''value with spaces'') \<and>
   dotenv_entry (''KEY='' @ [squote] @ ''a'' @ [dquote]) = Some (''KEY'', [squote] @ ''a'' @ [dquote])"
proof -
  have key: "''KEY'' \<noteq> [] \<and> \<not> is_ws (hd ''KEY'') \<and> \<not> is_ws (last ''KEY'') \<and>
      hd ''KEY'' \<noteq> CHR ''#'' \<and> CHR ''='' \<notin> set ''KEY'' \<and> (dquote = dquote \<or> dquote = squote)"
    by (simp add: is_ws_def)
  have first: "dotenv_entry (''KEY'' @ ''='' @ [dquote] @ ''value with spaces'' @ [dquote])
      = Some (''KEY'', ''value with spaces'')"
    using dotenv_quote_stripping[of "''KEY''" dquote "''value with spaces''"] key by blast
  obtain k v where kv: "dotenv_entry (''KEY='' @ [squote] @ ''a'' @ [dquote]) = Some (k, v)"
    "k = ''KEY''"
    by (simp add: dotenv_entry_def js_defs)
  have "let raw = trim (substring_from (trim (''KEY='' @ [squote] @ ''a'' @ [dquote]))
            (indexOf (trim (''KEY='' @ [squote] @ ''a'' @ [dquote])) CHR ''='' + 1))
       in v = (if raw \<noteq> [] \<and> hd raw = last raw \<and> (hd raw = dquote \<or> hd raw = squote)
               then butlast (tl raw) else raw)"
    using dotenv_quote_stripping[of _ _ _ "''KEY='' @ [squote] @ ''a'' @ [dquote]" k v] kv(1)
    by blast
  then have "v = [squote] @ ''a'' @ [dquote]"
    by (simp add: js_defs)
  then show ?thesis
    using first kv by simp
qed

text \<open>
  The property as first stated fails at its second example: \<open>'a'b'\<close> begins and ends with a single
  quote, so the source strips them.
\<close>

theorem dotenv_quote_stripping_counterexample:
  "dotenv_entry (''KEY='' @ [squote] @ ''a'' @ [squote] @ ''b'' @ [squote])
     = Some (''KEY'', ''a'' @ [squote] @ ''b'') \<and>
   ''a'' @ [squote] @ ''b'' \<noteq> [squote] @ ''a'' @ [squote] @ ''b'' @ [squote]"
  by (simp add: dotenv_entry_def strip_quotes_def js_defs)

subsection \<open>C9: nothing is thrown to the caller\<close>

text \<open>
  C9. For every platform, environment, shell outcome and file system, \<open>loadShellEnv\<close>
  and \<open>loadDotEnv\<close> return an environment and never an exception. When \<open>execSync\<close>
  throws, whatever the error, the shell loader returns the environment with the fallback
  \<open>PATH\<close>; when finding the working directory or reading the file throws, the dotenv
  loader returns the environment unchanged.
\<close>

theorem loaders_never_throw:
  "(\<exists>e'. loadShellEnv w e = Inr e') \<and>
   (\<exists>e'. loadDotEnv w e = Inr e') \<and>
   (platform w = ''darwin'' \<and> \<not> truthy (e ''VITE_DEV_SERVER_URL'') \<and>
    execSync w (shell_command (or_default (e ''SHELL'') ''/bin/zsh''))
      (child_env e (or_default (e ''SHELL'') ''/bin/zsh'')) = Inl err
      \<longrightarrow> loadShellEnv w e = Inr (fallback e)) \<and>
   (cwd w = Inl err \<or>
    (cwd w = Inr dir \<and> existsSync w (path_join w dir ''.env'') \<and>
     readFileSync w (path_join w dir ''.env'') = Inl err)
      \<longrightarrow> loadDotEnv w e = Inr e)"
proof (intro conjI impI)
  show "\<exists>e'. loadShellEnv w e = Inr e'"
    by (simp add: loadShellEnv_cases)
  show "\<exists>e'. loadDotEnv w e = Inr e'"
    by (simp add: loadDotEnv_cases)
next
  assume "platform w = ''darwin'' \<and> \<not> truthy (e ''VITE_DEV_SERVER_URL'') \<and>
    execSync w (shell_command (or_default (e ''SHELL'') ''/bin/zsh''))
      (child_env e (or_default (e ''SHELL'') ''/bin/zsh'')) = Inl err"
  then show "loadShellEnv w e = Inr (fallback e)"
    by (simp add: loadShellEnv_cases)
next
  assume "cwd w = Inl err \<or>
    (cwd w = Inr dir \<and> existsSync w (path_join w dir ''.env'') \<and>
     readFileSync w (path_join w dir ''.env'') = Inl err)"
  then show "loadDotEnv w e = Inr e"
    by (auto simp: loadDotEnv_cases)
qed

theorem loaders_never_throw_witness:
  "loadShellEnv (sample_world (Inl SpawnFailure) (Inr [])) launch_env = Inr (fallback launch_env) \<and>
   loadShellEnv (sample_world (Inl NonZeroExit) (Inr [])) launch_env = Inr (fallback launch_env) \<and>
   loadShellEnv (sample_world (Inl Timeout) (Inr [])) launch_env = Inr (fallback launch_env) \<and>
   loadDotEnv (sample_world (Inr []) (Inl FileReadFailure)) dev_env = Inr dev_env \<and>
   loadDotEnv ((sample_world (Inr []) (Inr ''FOO=1''))\<lparr>cwd := Inl CwdFailure\<rparr>) dev_env
     = Inr dev_env"
proof -
  have gate: "\<not> truthy (launch_env ''VITE_DEV_SERVER_URL'')"
    by (simp add: launch_env_def truthy_def)
  have shell: "platform (sample_world (Inl x) (Inr [])) = ''darwin''"
    "execSync (sample_world (Inl x) (Inr [])) c ce = Inl x" for x c ce
    by (simp_all add: sample_world_def)
  have thrown: "loadShellEnv (sample_world (Inl x) (Inr [])) launch_env = Inr (fallback launch_env)"
    for x
    by (rule loaders_never_throw[of "sample_world (Inl x) (Inr [])" launch_env x,
          THEN conjunct2, THEN conjunct2, THEN conjunct1, THEN mp])
       (simp add: gate shell)
  have unreadable: "loadDotEnv (sample_world (Inr []) (Inl FileReadFailure)) dev_env = Inr dev_env"
    by (rule loaders_never_throw[of "sample_world (Inr []) (Inl FileReadFailure)" dev_env
          FileReadFailure "''/proj''", THEN conjunct2, THEN conjunct2, THEN conjunct2, THEN mp])
       (simp add: sample_world_def)
  have no_cwd: "loadDotEnv ((sample_world (Inr []) (Inr ''FOO=1''))\<lparr>cwd := Inl CwdFailure\<rparr>) dev_env
      = Inr dev_env"
    by (rule loaders_never_throw[of "(sample_world (Inr []) (Inr ''FOO=1''))\<lparr>cwd := Inl CwdFailure\<rparr>"
          dev_env CwdFailure "''/proj''", THEN conjunct2, THEN conjunct2, THEN conjunct2, THEN mp])
       simp
  show ?thesis
    using thrown[of SpawnFailure] thrown[of NonZeroExit] thrown[of Timeout] unreadable no_cwd
    by (intro conjI)
qed

subsection \<open>C10: several lines for one key\<close>

text \<open>
  C10, as amended. When \<open>loadDotEnv\<close> reads the file and a name is absent from the
  environment and is not the name of a member that \<open>process.env\<close> inherits from
  \<open>Object.prototype\<close> (or the name holds the empty string), the name ends with the first
  non-empty value among the values the file's lines give for it, each taken as the
  environment table keeps it, up to its first NUL: lines before it whose value is empty
  write the empty string, which the presence check treats as absent, and so do not block
  it.
\<close>

theorem dotenv_first_nonempty_wins:
  "truthy (e ''VITE_DEV_SERVER_URL'') \<and> cwd w = Inr dir \<and>
   existsSync w (path_join w dir ''.env'') \<and>
   readFileSync w (path_join w dir ''.env'') = Inr envContent \<and>
   \<not> truthy (e k) \<and> (e k = None \<longrightarrow> k \<notin> set object_prototype_names) \<and>
   dotenv_values k (split_str nl envContent) = empties @ v # rest \<and>
   set empties \<subseteq> {[]} \<and> v \<noteq> []
     \<longrightarrow> (\<exists>e'. loadDotEnv w e = Inr e' \<and> e' k = Some v)"
proof (intro impI; elim conjE)
  assume run: "truthy (e ''VITE_DEV_SERVER_URL'')" "cwd w = Inr dir"
    "existsSync w (path_join w dir ''.env'')"
    "readFileSync w (path_join w dir ''.env'') = Inr envContent"
    and absent: "\<not> truthy (e k)"
    and own: "e k = None \<longrightarrow> k \<notin> set object_prototype_names"
    and vals: "dotenv_values k (split_str nl envContent) = empties @ v # rest"
    and first: "set empties \<subseteq> {[]}" "v \<noteq> []"
  have "loadDotEnv w e = Inr (dotenv_merge e envContent)"
    using run by (simp add: loadDotEnv_cases)
  moreover have "dotenv_merge e envContent k = Some v"
    using absent find_after_empties[OF first, of rest]
    by (simp add: dotenv_merge_key[where e = e and k = k, OF own] vals first_nonempty_def)
  ultimately show "\<exists>e'. loadDotEnv w e = Inr e' \<and> e' k = Some v"
    by simp
qed

theorem dotenv_first_nonempty_wins_witness:
  "dev_env ''K'' = None \<and>
   dotenv_values ''K'' (split_str nl repeated_key_file) = [[], [], ''first'', ''second''] \<and>
   (\<exists>e'. loadDotEnv (sample_world (Inr []) (Inr repeated_key_file)) dev_env = Inr e' \<and>
      e' ''K'' = Some ''first'')"
proof -
  let ?w = "sample_world (Inr []) (Inr repeated_key_file)"
  have vals: "dotenv_values ''K'' (split_str nl repeated_key_file) = [[], []] @ ''first'' # [''second'']"
    by (simp add: repeated_key_file_def dotenv_values_def stored_def dotenv_entry_def
        strip_quotes_def List.map_filter_simps js_defs)
  have pre: "truthy (dev_env ''VITE_DEV_SERVER_URL'') \<and> cwd ?w = Inr ''/proj'' \<and>
     existsSync ?w (path_join ?w ''/proj'' ''.env'') \<and>
     readFileSync ?w (path_join ?w ''/proj'' ''.env'') = Inr repeated_key_file \<and>
     \<not> truthy (dev_env ''K'') \<and> (dev_env ''K'' = None \<longrightarrow> ''K'' \<notin> set object_prototype_names) \<and>
     dotenv_values ''K'' (split_str nl repeated_key_file) = [[], []] @ ''first'' # [''second''] \<and>
     set [[], []] \<subseteq> {[]::string} \<and> ''first'' \<noteq> []"
    using vals by (simp add: sample_world_def dev_env_def truthy_def object_prototype_names_def)
  have "\<exists>e'. loadDotEnv ?w dev_env = Inr e' \<and> e' ''K'' = Some ''first''"
    using dotenv_first_nonempty_wins[of dev_env ?w "''/proj''" repeated_key_file "''K''"
        "[[], []]" "''first''" "[''second'']", THEN mp, OF pre] .
  moreover have "dev_env ''K'' = None"
    by (simp add: dev_env_def)
  ultimately show ?thesis
    using vals by simp
qed

text \<open>
  The property as first stated fails for two files. The name \<open>constructor\<close> is absent
  from the environment, the lines \<open>constructor=\<close> and \<open>constructor=2\<close> parse to the
  values empty and \<open>2\<close>, and the table is left as it was: the presence check reads the
  inherited member. The name \<open>B\<close> is absent, the lines parse to the values NUL and
  \<open>w\<close>, the first of them not empty, and \<open>B\<close> ends with \<open>w\<close>: the table keeps the
  first value as the empty string.
\<close>

theorem dotenv_first_nonempty_wins_counterexample:
  "dev_env ''constructor'' = None \<and>
   List.map_filter dotenv_entry (split_str nl inherited_key_file)
     = [(''constructor'', []), (''constructor'', ''2'')] \<and>
   loadDotEnv (sample_world (Inr []) (Inr inherited_key_file)) dev_env = Inr dev_env \<and>
   dev_env ''B'' = None \<and>
   List.map_filter dotenv_entry (split_str nl nul_value_file)
     = [(''B'', [CHR 0x00]), (''B'', ''w'')] \<and>
   loadDotEnv (sample_world (Inr []) (Inr nul_value_file)) dev_env = Inr (dev_env(''B'' \<mapsto> ''w''))"
proof -
  have on: "truthy (dev_env ''VITE_DEV_SERVER_URL'')"
    by (simp add: dev_env_def truthy_def)
  have parsed: "List.map_filter dotenv_entry (split_str nl inherited_key_file)
     = [(''constructor'', []), (''constructor'', ''2'')]"
    "List.map_filter dotenv_entry (split_str nl nul_value_file)
     = [(''B'', [CHR 0x00]), (''B'', ''w'')]"
    by (simp_all add: inherited_key_file_def nul_value_file_def dotenv_entry_def strip_quotes_def
        List.map_filter_simps js_defs)
  have inherited: "dotenv_merge dev_env inherited_key_file = dev_env"
    by (simp add: inherited_key_file_def dotenv_defs js_defs dev_env_def)
  have nul: "dotenv_merge dev_env nul_value_file = dev_env(''B'' \<mapsto> ''w'')"
    by (simp add: nul_value_file_def dotenv_defs js_defs dev_env_def)
  have absent: "dev_env ''constructor'' = None" "dev_env ''B'' = None"
    by (simp_all add: dev_env_def)
  show ?thesis
    using on parsed absent
    by (simp add: loadDotEnv_cases sample_world_def inherited nul)
qed

end
